theory Spec2Isabelle
  imports Complex_Main "HOL-Library.Char_ord" "HOL-Library.List_Lexorder"
    "HOL-Library.Product_Lexorder"
begin

section \<open>Data model\<close>

text \<open>
  Grid units are JavaScript numbers that hold integers; they are modelled as \<open>int\<close>.
  The upper bounds \<open>maxW\<close>, \<open>maxH\<close> and \<open>maxRows\<close> default to \<open>Infinity\<close>, and
  \<open>handleResize\<close> starts its running minima at \<open>Infinity\<close>: \<open>jsnum\<close> adds that one
  value to the integers.
\<close>

datatype jsnum = Fin int | PosInf

text \<open>\<open>Math.min(v, b)\<close> and \<open>b - v\<close> for a finite \<open>v\<close> and a bound \<open>b\<close> that may be infinite.\<close>

fun min_js :: "int \<Rightarrow> jsnum \<Rightarrow> int" where
  "min_js v PosInf = v"
| "min_js v (Fin b) = min v b"

fun minus_js :: "jsnum \<Rightarrow> int \<Rightarrow> jsnum" where
  "minus_js PosInf v = PosInf"
| "minus_js (Fin b) v = Fin (b - v)"

fun le_js :: "int \<Rightarrow> jsnum \<Rightarrow> bool" where
  "le_js v PosInf = True"
| "le_js v (Fin b) = (v \<le> b)"

text \<open>\<open>Math.min(acc, v)\<close> where the accumulator may still be \<open>Infinity\<close>.\<close>

fun acc_min :: "jsnum \<Rightarrow> int \<Rightarrow> jsnum" where
  "acc_min PosInf v = Fin v"
| "acc_min (Fin b) v = Fin (min b v)"

datatype CompactType = Vertical | Horizontal

text \<open>
  A layout item. The fields are those the components read and write: \<open>i\<close>, \<open>x\<close>, \<open>y\<close>,
  \<open>w\<close>, \<open>h\<close>, the optional bounds, \<open>static\<close>, the three tri-state overrides (unset is
  \<open>None\<close>) and \<open>persistentW\<close>/\<open>persistentH\<close>, which \<open>handleResize\<close> sets. Field names
  carry the prefix \<open>li_\<close> because a record field is a constant of the theory.
\<close>

record LayoutItem =
  li_i :: string
  li_x :: int
  li_y :: int
  li_w :: int
  li_h :: int
  li_minW :: "int option"
  li_maxW :: "jsnum option"
  li_minH :: "int option"
  li_maxH :: "jsnum option"
  li_static :: bool
  li_isDraggable :: "bool option"
  li_isResizable :: "bool option"
  li_isBounded :: "bool option"
  li_persistentW :: "int option"
  li_persistentH :: "int option"

type_synonym Layout = "LayoutItem list"

text \<open>
  The placeholder object literal of \<open>handleDrag\<close> (\<open>placeholder: true\<close>) and of
  \<open>handleResize\<close> (\<open>static: true\<close>); a flag the literal does not set is \<open>False\<close>.
\<close>

record Placeholder =
  ph_w :: int
  ph_h :: int
  ph_x :: int
  ph_y :: int
  ph_placeholder :: bool
  ph_static :: bool
  ph_i :: string

section \<open>GridItem: pixel to grid conversion and the resize wrapper\<close>

text \<open>
  \<open>calcWH\<close> starts from two quotients of pixel quantities,
  \<open>Math.round((width + margin[0]) / (colWidth + margin[0]))\<close> and
  \<open>Math.round((height + margin[1]) / (rowHeight + margin[1]))\<close>, with \<open>colWidth\<close> from
  \<open>calcColWidth\<close>. They are computed in IEEE double arithmetic, which is not modelled:
  the two rounded quotients are inputs of the model. A rounded quotient is a whole
  number, an infinity (a zero denominator) or \<open>NaN\<close> (zero by zero). Everything
  \<open>calcWH\<close> and \<open>onResizeHandler\<close> do with them afterwards is \<open>Math.min\<close> and \<open>Math.max\<close>
  against grid quantities, modelled here as JavaScript defines them: \<open>NaN\<close> is
  contagious, and an infinity gives way to a finite bound on its side.
\<close>

datatype rounded = Whole int | PlusInf | MinusInf | NaN

text \<open>\<open>Math.min(v, b)\<close> and \<open>Math.max(v, b)\<close> for a finite \<open>b\<close>.\<close>

fun min_int :: "rounded \<Rightarrow> int \<Rightarrow> rounded" where
  "min_int (Whole v) b = Whole (min v b)"
| "min_int PlusInf b = Whole b"
| "min_int MinusInf b = MinusInf"
| "min_int NaN b = NaN"

fun max_int :: "rounded \<Rightarrow> int \<Rightarrow> rounded" where
  "max_int (Whole v) b = Whole (max v b)"
| "max_int PlusInf b = PlusInf"
| "max_int MinusInf b = Whole b"
| "max_int NaN b = NaN"

text \<open>\<open>Math.min(v, b)\<close> for a bound \<open>b\<close> that may be \<open>Infinity\<close>.\<close>

fun min_bound :: "rounded \<Rightarrow> jsnum \<Rightarrow> rounded" where
  "min_bound v PosInf = v"
| "min_bound v (Fin b) = min_int v b"

text \<open>
  The props of a \<open>GridItem\<close> that \<open>calcWH\<close> and \<open>onResizeHandler\<close> read after the
  rounding. \<open>gi_handlers\<close> lists the handler names for which \<open>props[handlerName]\<close> is
  set.
\<close>

record GridItemProps =
  gi_cols :: int
  gi_maxRows :: jsnum
  gi_x :: int
  gi_y :: int
  gi_i :: string
  gi_minW :: int
  gi_maxW :: jsnum
  gi_minH :: int
  gi_maxH :: jsnum
  gi_handlers :: "string list"

text \<open>
  \<open>calcWH\<close>, from the two rounded quotients \<open>(w, h)\<close> on: the capping of \<open>w\<close> to
  \<open>[0, cols - x]\<close> and of \<open>h\<close> to \<open>[0, maxRows - y]\<close>.
\<close>

definition calcWH :: "GridItemProps \<Rightarrow> rounded \<times> rounded \<Rightarrow> rounded \<times> rounded" where
  "calcWH p quotients =
     (let (w, h) = quotients;
          w = max_int (min_int w (gi_cols p - gi_x p)) 0;
          h = max_int (min_bound h (minus_js (gi_maxRows p) (gi_y p))) 0
      in (w, h))"

text \<open>
  \<open>onResizeHandler\<close>: returns nothing when the handler is not set, otherwise calls it
  with \<open>(i, w, h)\<close>. The result is the argument triple of that call. The gesture's pixel
  size enters through the two rounded quotients of \<open>calcWH\<close>. The local \<open>resizing\<close>
  state of the item is display only and is left out.
\<close>

definition onResizeHandler ::
  "GridItemProps \<Rightarrow> rounded \<times> rounded \<Rightarrow> string \<Rightarrow> (string \<times> rounded \<times> rounded) option" where
  "onResizeHandler p quotients handlerName =
     (if handlerName \<notin> set (gi_handlers p) then None
      else
        let (w, h) = calcWH p quotients;
            w = min_int w (gi_cols p - gi_x p);
            w = max_int w 1;
            w = max_int (min_bound w (gi_maxW p)) (gi_minW p);
            h = max_int (min_bound h (gi_maxH p)) (gi_minH p)
        in Some (gi_i p, w, h))"

text \<open>
  The spec's wording, for comparison: a value clamped to the interval \<open>[lo, hi]\<close> is the
  value itself inside the interval and the nearer end outside it.
\<close>

definition clamped_to :: "int \<Rightarrow> jsnum \<Rightarrow> int \<Rightarrow> int" where
  "clamped_to lo hi v =
     (if v < lo then lo
      else case hi of PosInf \<Rightarrow> v | Fin b \<Rightarrow> (if b < v then b else v))"

section \<open>ReactGridLayout: per-item flags\<close>

text \<open>
  The container props the flag computation and the handlers read.
  \<open>compactType\<close> is \<open>"vertical"\<close>, \<open>"horizontal"\<close> or \<open>null\<close> (\<open>None\<close>).
\<close>

record Props =
  p_cols :: int
  p_compactType :: "CompactType option"
  p_verticalCompact :: bool
  p_preventCollision :: bool
  p_isDraggable :: bool
  p_isResizable :: bool
  p_isBounded :: bool

definition fixCompactType :: "Props \<Rightarrow> CompactType option" where
  "fixCompactType p = (if p_verticalCompact p = False then None else p_compactType p)"

text \<open>
  The three flags \<open>processGridItem\<close> computes for a layout item and hands to the
  rendered \<open>GridItem\<close>: \<open>draggable\<close>, \<open>resizable\<close>, \<open>bounded\<close>.
  \<open>l.f || l.f == null\<close> is true for an unset flag and for \<open>true\<close>.
\<close>

definition set_or_unset :: "bool option \<Rightarrow> bool" where
  "set_or_unset f = (case f of None \<Rightarrow> True | Some b \<Rightarrow> b)"

definition draggable :: "Props \<Rightarrow> LayoutItem \<Rightarrow> bool" where
  "draggable p l = (\<not> li_static l \<and> p_isDraggable p \<and> set_or_unset (li_isDraggable l))"

definition resizable :: "Props \<Rightarrow> LayoutItem \<Rightarrow> bool" where
  "resizable p l = (\<not> li_static l \<and> p_isResizable p \<and> set_or_unset (li_isResizable l))"

definition bounded :: "Props \<Rightarrow> LayoutItem \<Rightarrow> bool" where
  "bounded p l = (draggable p l \<and> p_isBounded p \<and> set_or_unset (li_isBounded l))"

section \<open>Collision detection and compaction\<close>

text \<open>
  Modelled from the spec: \<open>collides\<close>, \<open>getAllCollisions\<close>, \<open>getLayoutItem\<close>,
  \<open>cloneLayoutItem\<close> and \<open>compact\<close> are imported from \<open>./utils\<close>, which is not among
  the sources. The definitions follow the spec: the rectangles of two items with different
  keys collide iff \<open>[x, x+w) \<times> [y, y+h)\<close> intersect; \<open>getAllCollisions\<close> keeps layout
  order.
\<close>

definition collides :: "LayoutItem \<Rightarrow> LayoutItem \<Rightarrow> bool" where
  "collides a b =
     (li_i a \<noteq> li_i b \<and>
      max (li_x a) (li_x b) < min (li_x a + li_w a) (li_x b + li_w b) \<and>
      max (li_y a) (li_y b) < min (li_y a + li_h a) (li_y b + li_h b))"

definition getAllCollisions :: "Layout \<Rightarrow> LayoutItem \<Rightarrow> Layout" where
  "getAllCollisions layout item = filter (\<lambda>l. collides l item) layout"

definition cloneLayoutItem :: "LayoutItem \<Rightarrow> LayoutItem" where
  "cloneLayoutItem l = l"

text \<open>
  Modelled from the spec: \<open>compact(layout, compactType, cols)\<close>. Items are visited in
  ascending order of \<open>(y, x, i)\<close> (vertical) or \<open>(x, y, i)\<close> (horizontal); a visited
  non-static item goes to the position nearest the origin on the compaction axis at which it
  collides with nothing placed so far, the placed items being all static items and the
  items visited before it at their new positions. Static items are copied unchanged. Then
  every item with \<open>x + w > cols\<close> has \<open>x\<close> reduced to \<open>cols - w\<close>. The output is in input
  order; with \<open>compactType\<close> \<open>null\<close> only the bound correction is applied.
\<close>

definition axis_pos :: "CompactType \<Rightarrow> LayoutItem \<Rightarrow> int" where
  "axis_pos ct l = (case ct of Vertical \<Rightarrow> li_y l | Horizontal \<Rightarrow> li_x l)"

definition cross_pos :: "CompactType \<Rightarrow> LayoutItem \<Rightarrow> int" where
  "cross_pos ct l = (case ct of Vertical \<Rightarrow> li_x l | Horizontal \<Rightarrow> li_y l)"

definition axis_len :: "CompactType \<Rightarrow> LayoutItem \<Rightarrow> int" where
  "axis_len ct l = (case ct of Vertical \<Rightarrow> li_h l | Horizontal \<Rightarrow> li_w l)"

definition set_axis :: "CompactType \<Rightarrow> int \<Rightarrow> LayoutItem \<Rightarrow> LayoutItem" where
  "set_axis ct v l = (case ct of Vertical \<Rightarrow> l\<lparr>li_y := v\<rparr> | Horizontal \<Rightarrow> l\<lparr>li_x := v\<rparr>)"

definition sort_index :: "CompactType \<Rightarrow> nat \<times> LayoutItem \<Rightarrow> int \<times> int \<times> string" where
  "sort_index ct kl = (axis_pos ct (snd kl), cross_pos ct (snd kl), li_i (snd kl))"

definition sortLayoutItems :: "CompactType \<Rightarrow> (nat \<times> LayoutItem) list \<Rightarrow> (nat \<times> LayoutItem) list" where
  "sortLayoutItems ct ils = sort_key (sort_index ct) ils"

text \<open>The far edge of a set of placed items on the compaction axis: the bottom, or the right edge.\<close>

definition far_edge :: "CompactType \<Rightarrow> Layout \<Rightarrow> int" where
  "far_edge ct placed = fold (\<lambda>l b. max b (axis_pos ct l + axis_len ct l)) placed 0"

definition is_free :: "Layout \<Rightarrow> LayoutItem \<Rightarrow> bool" where
  "is_free placed l = (getAllCollisions placed l = [])"

text \<open>
  The least position \<open>v\<close> in \<open>0 .. b\<close> that is free. The far edge of the placed items is
  always free, so with \<open>b\<close> the far edge the search succeeds.
\<close>

definition nearest_free :: "(int \<Rightarrow> bool) \<Rightarrow> int \<Rightarrow> int" where
  "nearest_free free b = (case find free [0..b] of Some v \<Rightarrow> v | None \<Rightarrow> b)"

definition compactItem :: "CompactType \<Rightarrow> Layout \<Rightarrow> LayoutItem \<Rightarrow> LayoutItem" where
  "compactItem ct placed l =
     (if li_static l then l
      else set_axis ct
             (nearest_free (\<lambda>v. is_free placed (set_axis ct v l)) (far_edge ct placed)) l)"

text \<open>
  One pass over the sorted items, each paired with its index in the input. \<open>placed\<close>
  starts as the static items and grows by each non-static item at its new position.
\<close>

fun compactAll :: "CompactType \<Rightarrow> Layout \<Rightarrow> (nat \<times> LayoutItem) list \<Rightarrow> (nat \<times> LayoutItem) list" where
  "compactAll ct placed [] = []"
| "compactAll ct placed ((k, l) # rest) =
     (let l' = compactItem ct placed l
      in (k, l') # compactAll ct (if li_static l then placed else placed @ [l']) rest)"

text \<open>The axis compaction, its result put back in input order.\<close>

definition compactAxis :: "CompactType \<Rightarrow> Layout \<Rightarrow> Layout" where
  "compactAxis ct layout =
     map snd (sort_key fst
       (compactAll ct (filter li_static layout)
          (sortLayoutItems ct (zip [0..<length layout] layout))))"

definition correctBound :: "int \<Rightarrow> LayoutItem \<Rightarrow> LayoutItem" where
  "correctBound cols l = (if li_x l + li_w l > cols then l\<lparr>li_x := cols - li_w l\<rparr> else l)"

definition compact :: "Layout \<Rightarrow> CompactType option \<Rightarrow> int \<Rightarrow> Layout" where
  "compact layout compactType cols =
     (case compactType of
        None \<Rightarrow> map (correctBound cols) layout
      | Some ct \<Rightarrow> map (correctBound cols) (compactAxis ct layout))"

text \<open>
  Three notions for reasoning about a pass. An item is settled among placed items when it
  sits at the nearest free position; a layout is stable when every movable item collides
  with nothing and every position nearer the origin is blocked by some item of the layout;
  the movable items of an indexed list are its non-static ones.
\<close>

definition settled :: "CompactType \<Rightarrow> Layout \<Rightarrow> LayoutItem \<Rightarrow> bool" where
  "settled ct placed l =
     (0 \<le> axis_pos ct l \<and> is_free placed l \<and>
      (\<forall>u. 0 \<le> u \<and> u < axis_pos ct l \<longrightarrow> \<not> is_free placed (set_axis ct u l)))"

definition stable_layout :: "CompactType \<Rightarrow> Layout \<Rightarrow> bool" where
  "stable_layout ct layout =
     (\<forall>l \<in> set layout. \<not> li_static l \<longrightarrow>
        0 \<le> axis_pos ct l \<and> (\<forall>ob \<in> set layout. \<not> collides ob l) \<and>
        (\<forall>u. 0 \<le> u \<and> u < axis_pos ct l \<longrightarrow> (\<exists>t \<in> set layout. collides t (set_axis ct u l))))"

definition movable :: "(nat \<times> LayoutItem) list \<Rightarrow> Layout" where
  "movable xs = filter (\<lambda>l. \<not> li_static l) (map snd xs)"

section \<open>ReactGridLayout: the interaction handlers\<close>

text \<open>
  Layout items are JavaScript objects that the handlers share and change in place
  (\<open>l.w = w\<close> in \<open>handleResize\<close>), so the model has an object store: \<open>objects\<close> is the
  list of all item objects ever created, an address is an index into it, and a layout
  array is a list of addresses. Arrays themselves are never written to. \<open>compact\<close>
  returns a new layout of new item objects (\<open>alloc\<close>).

  The component state holds \<open>layoutState\<close>, \<open>activeDrag\<close>, \<open>oldDragItem\<close>,
  \<open>oldLayout\<close> and \<open>oldResizeItem\<close>; \<open>null\<close> is \<open>None\<close>. \<open>setOldLayout(layoutState)\<close>
  stores the array itself, not a copy. \<open>oldDragItem\<close> and \<open>oldResizeItem\<close> are clones
  that nothing writes to, and are kept as values.
\<close>

type_synonym addr = nat
type_synonym LayoutRef = "addr list"

record State =
  objects :: "LayoutItem list"
  layoutState :: LayoutRef
  activeDrag :: "Placeholder option"
  oldDragItem :: "LayoutItem option"
  oldLayout :: "LayoutRef option"
  oldResizeItem :: "LayoutItem option"

definition deref :: "LayoutItem list \<Rightarrow> LayoutRef \<Rightarrow> Layout" where
  "deref objs L = map (\<lambda>a. objs ! a) L"

definition alloc :: "LayoutItem list \<Rightarrow> Layout \<Rightarrow> LayoutItem list \<times> LayoutRef" where
  "alloc objs vs = (objs @ vs, [length objs ..< length objs + length vs])"

text \<open>
  Modelled from the spec: \<open>getLayoutItem\<close> (of \<open>./utils\<close>) looks an item up by key; it
  returns the item object itself, or nothing.
\<close>

definition getLayoutItem :: "LayoutItem list \<Rightarrow> LayoutRef \<Rightarrow> string \<Rightarrow> addr option" where
  "getLayoutItem objs L k = find (\<lambda>a. li_i (objs ! a) = k) L"

text \<open>
  \<open>processGridItem\<close>: nothing is rendered for a child without a key or without a layout
  item; otherwise the child is wrapped in a \<open>GridItem\<close> that gets the layout item and
  the three flags \<open>isDraggable\<close>, \<open>isResizable\<close>, \<open>isBounded\<close>.
\<close>

definition processGridItem ::
    "Props \<Rightarrow> LayoutItem list \<Rightarrow> LayoutRef \<Rightarrow> string option
       \<Rightarrow> (LayoutItem \<times> bool \<times> bool \<times> bool) option" where
  "processGridItem p objs L childKey =
     (case childKey of
        None \<Rightarrow> None
      | Some key \<Rightarrow>
          if key = [] then None
          else (case getLayoutItem objs L key of
                  None \<Rightarrow> None
                | Some a \<Rightarrow>
                    let l = objs ! a
                    in Some (l, draggable p l, resizable p l, bounded p l)))"

text \<open>
  What the caller's callbacks receive, as the values the arguments have at the call:
  \<open>(layout, oldItem, newItem, placeholder)\<close> for the six drag and resize callbacks (the
  event and the DOM node are passed through and left out), and the layout for
  \<open>onLayoutChange\<close>.
\<close>

datatype Callback = OnDragStart | OnDrag | OnDragStop | OnResizeStart | OnResize | OnResizeStop

datatype Notification =
    ItemEvent Callback Layout "LayoutItem option" "LayoutItem option" "Placeholder option"
  | OnLayoutChange Layout

text \<open>
  \<open>moveElement\<close> (of \<open>./utils\<close>) is a parameter \<open>mv\<close> of the drag handlers: a function
  from the object store, the layout array, the item object and the remaining arguments to
  the store it leaves and the layout array it returns.
\<close>

type_synonym MoveElement =
  "LayoutItem list \<Rightarrow> LayoutRef \<Rightarrow> addr \<Rightarrow> int \<Rightarrow> int \<Rightarrow> bool \<Rightarrow> bool \<Rightarrow> CompactType option \<Rightarrow> int
     \<Rightarrow> LayoutItem list \<times> LayoutRef"

text \<open>
  \<open>handleLayoutMaybeChanged\<close>: \<open>isEqual\<close> is structural equality of the two layouts as
  they are in the store at that moment.
\<close>

definition handleLayoutMaybeChanged ::
    "LayoutItem list \<Rightarrow> LayoutRef \<Rightarrow> LayoutRef \<Rightarrow> LayoutRef option \<Rightarrow> Notification list" where
  "handleLayoutMaybeChanged objs layoutState0 newLayoutState oldLayoutState =
     (let old = (case oldLayoutState of Some ol \<Rightarrow> ol | None \<Rightarrow> layoutState0)
      in if deref objs old \<noteq> deref objs newLayoutState
         then [OnLayoutChange (deref objs newLayoutState)] else [])"

definition handleDragStart :: "Props \<Rightarrow> State \<Rightarrow> string \<Rightarrow> int \<Rightarrow> int \<Rightarrow> State \<times> Notification list" where
  "handleDragStart p st k x y =
     (case getLayoutItem (objects st) (layoutState st) k of
        None \<Rightarrow> (st, [])
      | Some a \<Rightarrow>
          let l = objects st ! a
          in (st\<lparr>oldDragItem := Some (cloneLayoutItem l), oldLayout := Some (layoutState st)\<rparr>,
              [ItemEvent OnDragStart (deref (objects st) (layoutState st)) (Some l) (Some l) None]))"

definition handleDrag ::
    "MoveElement \<Rightarrow> Props \<Rightarrow> State \<Rightarrow> string \<Rightarrow> int \<Rightarrow> int \<Rightarrow> State \<times> Notification list" where
  "handleDrag mv p st k x y =
     (case getLayoutItem (objects st) (layoutState st) k of
        None \<Rightarrow> (st, [])
      | Some a \<Rightarrow>
          let l = objects st ! a;
              placeholder = \<lparr>ph_w = li_w l, ph_h = li_h l, ph_x = li_x l, ph_y = li_y l,
                             ph_placeholder = True, ph_static = False, ph_i = k\<rparr>;
              (objs1, modifiedLayout) =
                 mv (objects st) (layoutState st) a x y True (p_preventCollision p)
                    (fixCompactType p) (p_cols p);
              note = ItemEvent OnDrag (deref objs1 modifiedLayout) (oldDragItem st)
                       (Some (objs1 ! a)) (Some placeholder);
              (objs2, newLayout) =
                 alloc objs1 (compact (deref objs1 modifiedLayout) (fixCompactType p) (p_cols p))
          in (st\<lparr>objects := objs2, layoutState := newLayout, activeDrag := Some placeholder\<rparr>,
              [note]))"

definition handleDragStop ::
    "MoveElement \<Rightarrow> Props \<Rightarrow> State \<Rightarrow> string \<Rightarrow> int \<Rightarrow> int \<Rightarrow> State \<times> Notification list" where
  "handleDragStop mv p st k x y =
     (case getLayoutItem (objects st) (layoutState st) k of
        None \<Rightarrow> (st, [])
      | Some a \<Rightarrow>
          let (objs1, modifiedLayout) =
                 mv (objects st) (layoutState st) a x y True (p_preventCollision p)
                    (fixCompactType p) (p_cols p);
              note = ItemEvent OnDragStop (deref objs1 modifiedLayout) (oldDragItem st)
                       (Some (objs1 ! a)) None;
              (objs2, newLayout) =
                 alloc objs1 (compact (deref objs1 modifiedLayout) (fixCompactType p) (p_cols p))
          in (st\<lparr>objects := objs2, layoutState := newLayout, activeDrag := None,
                 oldDragItem := None, oldLayout := None\<rparr>,
              note # handleLayoutMaybeChanged objs2 (layoutState st) newLayout (oldLayout st)))"

definition handleResizeStart :: "Props \<Rightarrow> State \<Rightarrow> string \<Rightarrow> int \<Rightarrow> int \<Rightarrow> State \<times> Notification list" where
  "handleResizeStart p st k w h =
     (case getLayoutItem (objects st) (layoutState st) k of
        None \<Rightarrow> (st, [])
      | Some a \<Rightarrow>
          let l = objects st ! a
          in (st\<lparr>oldResizeItem := Some (cloneLayoutItem l), oldLayout := Some (layoutState st)\<rparr>,
              [ItemEvent OnResizeStart (deref (objects st) (layoutState st)) (Some l) (Some l) None]))"

text \<open>
  The part of \<open>handleResize\<close> that settles the item's new size: the colliding items
  (of the layout, against \<open>l\<close> with the requested size), the two running minima, and the
  writes to \<open>l\<close>.
\<close>

definition resizeCollisions :: "Layout \<Rightarrow> LayoutItem \<Rightarrow> int \<Rightarrow> int \<Rightarrow> Layout" where
  "resizeCollisions layout l w h =
     filter (\<lambda>layoutItem. li_i layoutItem \<noteq> li_i l)
       (getAllCollisions layout (l\<lparr>li_w := w, li_h := h\<rparr>))"

definition leastXY :: "LayoutItem \<Rightarrow> Layout \<Rightarrow> jsnum \<times> jsnum" where
  "leastXY l collisions =
     foldl (\<lambda>(leastX, leastY) layoutItem.
              (if li_x layoutItem > li_x l then acc_min leastX (li_x layoutItem) else leastX,
               if li_y layoutItem > li_y l then acc_min leastY (li_y layoutItem) else leastY))
       (PosInf, PosInf) collisions"

definition resizedItem :: "bool \<Rightarrow> Layout \<Rightarrow> LayoutItem \<Rightarrow> int \<Rightarrow> int \<Rightarrow> LayoutItem" where
  "resizedItem preventCollision layout l w h =
     (let collisions = (if preventCollision then resizeCollisions layout l w h else []);
          hasCollisions = (collisions \<noteq> [])
      in if hasCollisions then
           (let (leastX, leastY) = leastXY l collisions;
                l1 = (case leastX of Fin lx \<Rightarrow> l\<lparr>li_w := lx - li_x l\<rparr> | PosInf \<Rightarrow> l);
                l2 = (case leastY of Fin ly \<Rightarrow> l1\<lparr>li_h := ly - li_y l1\<rparr> | PosInf \<Rightarrow> l1)
            in l2)
         else l\<lparr>li_w := w, li_h := h, li_persistentW := Some w, li_persistentH := Some h\<rparr>)"

definition handleResize :: "Props \<Rightarrow> State \<Rightarrow> string \<Rightarrow> int \<Rightarrow> int \<Rightarrow> State \<times> Notification list" where
  "handleResize p st k w h =
     (case getLayoutItem (objects st) (layoutState st) k of
        None \<Rightarrow> (st, [])
      | Some a \<Rightarrow>
          let l = resizedItem (p_preventCollision p) (deref (objects st) (layoutState st))
                    (objects st ! a) w h;
              objs1 = (objects st)[a := l];
              placeholder = \<lparr>ph_w = li_w l, ph_h = li_h l, ph_x = li_x l, ph_y = li_y l,
                             ph_placeholder = False, ph_static = True, ph_i = k\<rparr>;
              note = ItemEvent OnResize (deref objs1 (layoutState st)) (oldResizeItem st)
                       (Some l) (Some placeholder);
              (objs2, newLayout) =
                 alloc objs1 (compact (deref objs1 (layoutState st)) (fixCompactType p) (p_cols p))
          in (st\<lparr>objects := objs2, layoutState := newLayout, activeDrag := Some placeholder\<rparr>,
              [note]))"

definition handleResizeStop :: "Props \<Rightarrow> State \<Rightarrow> string \<Rightarrow> int \<Rightarrow> int \<Rightarrow> State \<times> Notification list" where
  "handleResizeStop p st k w h =
     (let l = getLayoutItem (objects st) (layoutState st) k;
          note = ItemEvent OnResizeStop (deref (objects st) (layoutState st)) (oldResizeItem st)
                   (map_option (\<lambda>a. objects st ! a) l) None;
          (objs2, newLayout) =
             alloc (objects st)
               (compact (deref (objects st) (layoutState st)) (fixCompactType p) (p_cols p))
      in (st\<lparr>objects := objs2, layoutState := newLayout, activeDrag := None,
             oldResizeItem := None, oldLayout := None\<rparr>,
          note # handleLayoutMaybeChanged objs2 (layoutState st) newLayout (oldLayout st)))"

text \<open>
  The two running minima of \<open>handleResize\<close>, one at a time: the least \<open>f c\<close> above \<open>v0\<close>
  over the items \<open>c\<close>, starting from \<open>acc\<close>.
\<close>

definition least_of :: "(LayoutItem \<Rightarrow> int) \<Rightarrow> int \<Rightarrow> jsnum \<Rightarrow> Layout \<Rightarrow> jsnum" where
  "least_of f v0 acc cs = foldl (\<lambda>acc c. if f c > v0 then acc_min acc (f c) else acc) acc cs"

text \<open>
  Modelled from the spec: \<open>moveElement\<close> of \<open>./utils\<close>, which is not among the sources.

  The item is looked up by key; when it is absent the layout is returned as it is, and
  so it is for a static item, whose position is immutable. The target is clamped so that
  \<open>toX \<ge> 0\<close>, \<open>toX + w \<le> cols\<close>, \<open>toY \<ge> 0\<close>. With \<open>preventCollision\<close>, a target that
  collides with any other item leaves everything as it is, and otherwise the item is
  moved and the rest of the layout is returned unmodified.

  Without \<open>preventCollision\<close> the item is moved unconditionally and the displacement
  cascade runs. Items are displaced along the compaction axis, downwards for \<open>vertical\<close>
  and for none, to the right for \<open>horizontal\<close> (\<open>pushAxis\<close>). A non-static item that
  collides with a moving item and has not been displaced before in this cascade is pushed
  by the least amount that clears the overlap, to the far edge of the moving item, and is
  then a moving item itself, looked at before the remaining neighbours of the item that
  pushed it; \<open>pending\<close> holds the keys that may still be displaced and \<open>work\<close> those of
  the moving items, the latest first (\<open>displace\<close>). A static item is never displaced. A
  moving item that collides with a static obstacle is blocked at the obstacle's edge
  (\<open>blocked\<close>). In the top-level call of a gesture (\<open>isUserAction\<close>) a neighbour of the
  item moved by the user, whose key is then \<open>user\<close>, may swap with it instead of being
  pushed (\<open>place\<close>); the items displaced in turn are only pushed.

  The spec does not say which edge of an obstacle is meant, nor where a swapped neighbour
  goes. The readings taken: a moving item stops on the side it comes from, that is with
  its far side at the near edge of the obstacle when its position before the move is not
  beyond the obstacle's, and with its near side at the far edge of the obstacle otherwise
  (against the first colliding static item in layout order); a swapped neighbour goes to
  the near side of the item moved by the user, next to it, when that place is inside the
  grid and free.
\<close>

definition pushAxis :: "CompactType option \<Rightarrow> CompactType" where
  "pushAxis compactType =
     (case compactType of Some Horizontal \<Rightarrow> Horizontal | Some Vertical \<Rightarrow> Vertical | None \<Rightarrow> Vertical)"

text \<open>The layout with the item of the same key replaced by \<open>l\<close>.\<close>

definition put :: "LayoutItem \<Rightarrow> Layout \<Rightarrow> Layout" where
  "put l layout = map (\<lambda>c. if li_i c = li_i l then l else c) layout"

definition blocked :: "CompactType \<Rightarrow> Layout \<Rightarrow> LayoutItem \<Rightarrow> LayoutItem \<Rightarrow> LayoutItem" where
  "blocked ax layout origin m =
     (case filter li_static (getAllCollisions layout m) of
        [] \<Rightarrow> m
      | obstacle # _ \<Rightarrow>
          if axis_pos ax origin \<le> axis_pos ax obstacle
          then set_axis ax (max 0 (axis_pos ax obstacle - axis_len ax m)) m
          else set_axis ax (axis_pos ax obstacle + axis_len ax obstacle) m)"

definition place :: "bool \<Rightarrow> CompactType \<Rightarrow> LayoutItem \<Rightarrow> Layout \<Rightarrow> LayoutItem \<Rightarrow> LayoutItem" where
  "place swap ax m layout c =
     (let swapped = set_axis ax (axis_pos ax m - axis_len ax c) c
      in if swap \<and> 0 \<le> axis_pos ax swapped \<and> getAllCollisions layout swapped = [] then swapped
         else blocked ax layout c (set_axis ax (axis_pos ax m + axis_len ax m) c))"

function displace ::
  "CompactType \<Rightarrow> string option \<Rightarrow> Layout \<Rightarrow> string list \<Rightarrow> string list \<Rightarrow> Layout" where
  "displace ax user layout pending [] = layout"
| "displace ax user layout pending (k # work) =
     (case find (\<lambda>c. li_i c = k) layout of
        None \<Rightarrow> displace ax user layout pending work
      | Some m \<Rightarrow>
          (case filter (\<lambda>c. \<not> li_static c \<and> li_i c \<in> set pending) (getAllCollisions layout m) of
             [] \<Rightarrow> displace ax user layout pending work
           | c # _ \<Rightarrow>
               displace ax user (put (place (user = Some k) ax m layout c) layout)
                 (removeAll (li_i c) pending) (li_i c # k # work)))"
  by pat_completeness auto

termination
proof (relation "inv_image (less_than <*lex*> less_than)
                   (\<lambda>(ax, user, layout, pending, work). (length pending, length work))",
       goal_cases)
  case 1
  show ?case by (intro wf_inv_image wf_lex_prod wf_less_than)
next
  case 2
  show ?case by simp
next
  case 3
  show ?case by simp
next
  case (4 ax user layout pending k work m c cs)
  have "c \<in> set (filter (\<lambda>c. \<not> li_static c \<and> li_i c \<in> set pending) (getAllCollisions layout m))"
    using 4 by simp
  then have "li_i c \<in> set pending" by simp
  then have "length (removeAll (li_i c) pending) < length pending"
    by (simp add: removeAll_filter_not_eq length_filter_less [of "li_i c"])
  then show ?case by simp
qed

definition movedLayout ::
  "Layout \<Rightarrow> string \<Rightarrow> int \<Rightarrow> int \<Rightarrow> bool \<Rightarrow> bool \<Rightarrow> CompactType option \<Rightarrow> int \<Rightarrow> Layout" where
  "movedLayout layout k toX toY isUserAction preventCollision compactType cols =
     (case find (\<lambda>c. li_i c = k) layout of
        None \<Rightarrow> layout
      | Some l \<Rightarrow>
          if li_static l then layout
          else
            let target = l\<lparr>li_x := max 0 (min toX (cols - li_w l)), li_y := max 0 toY\<rparr>
            in if preventCollision
               then (if getAllCollisions layout target = [] then put target layout else layout)
               else
                 let ax = pushAxis compactType;
                     moved = blocked ax layout l target
                 in displace ax (if isUserAction then Some k else None) (put moved layout)
                      (removeAll k (map li_i layout)) [k])"

text \<open>
  On the object store: the item is given by its object, and the moved and displaced
  items are written to their objects, which is what lets \<open>handleDrag\<close> pass \<open>l\<close> on as the
  updated item. The layout array is returned as it is.
\<close>

definition moveElement :: MoveElement where
  "moveElement objs L a toX toY isUserAction preventCollision compactType cols =
     (let layout = movedLayout (deref objs L) (li_i (objs ! a)) toX toY isUserAction
                     preventCollision compactType cols
      in (fold (\<lambda>(b, l) objs. objs[b := l]) (zip L layout) objs, L))"

section \<open>ResponsiveReactGridLayout\<close>

text \<open>
  A JavaScript object used as a mapping from breakpoint names is an association list with
  one entry per key. \<open>k in obj\<close> is \<open>has_key\<close>, \<open>obj[k]\<close> is \<^const>\<open>map_of\<close>, and the
  assignment \<open>obj[k] = v\<close> is \<open>obj_set\<close>.
\<close>

type_synonym 'v obj = "(string \<times> 'v) list"

definition has_key :: "string \<Rightarrow> 'v obj \<Rightarrow> bool" where
  "has_key k ob = (k \<in> fst ` set ob)"

fun obj_set :: "string \<Rightarrow> 'v \<Rightarrow> 'v obj \<Rightarrow> 'v obj" where
  "obj_set k v [] = [(k, v)]"
| "obj_set k v ((k', v') # rest) =
     (if k' = k then (k, v) # rest else (k', v') # obj_set k v rest)"

text \<open>
  Modelled from the spec: \<open>getBreakpointFromWidth\<close> and \<open>getColsFromBreakpoint\<close> are
  imported from \<open>./responsiveUtils\<close>, which is not among the sources. Breakpoints are
  sorted descending by pixel threshold; the result is the name of the largest threshold
  that is \<open>\<le> width\<close>, and the breakpoint with the smallest threshold when the width is
  below every threshold. With no breakpoint at all there is no name to return.
  \<open>getColsFromBreakpoint\<close> is a lookup, and a name absent from the map is a
  configuration error.
\<close>

definition sortBreakpoints :: "int obj \<Rightarrow> int obj" where
  "sortBreakpoints breakpoints = rev (sort_key snd breakpoints)"

definition getBreakpointFromWidth :: "int obj \<Rightarrow> int \<Rightarrow> string option" where
  "getBreakpointFromWidth breakpoints width =
     (case sortBreakpoints breakpoints of
        [] \<Rightarrow> None
      | b # bs \<Rightarrow>
          (case find (\<lambda>(name, threshold). threshold \<le> width) (b # bs) of
             Some (name, threshold) \<Rightarrow> Some name
           | None \<Rightarrow> Some (fst (last (b # bs)))))"

datatype error = ConfigurationError

definition getColsFromBreakpoint :: "string \<Rightarrow> int obj \<Rightarrow> error + int" where
  "getColsFromBreakpoint breakpoint cols =
     (case map_of cols breakpoint of None \<Rightarrow> Inl ConfigurationError | Some c \<Rightarrow> Inr c)"

text \<open>
  Modelled from the spec: \<open>cloneLayout\<close> of \<open>./utils\<close> copies a layout item by item.
\<close>

definition cloneLayout :: "Layout \<Rightarrow> Layout" where
  "cloneLayout layout = map cloneLayoutItem layout"

text \<open>
  The props and the state of the responsive wrapper. The \<open>layouts\<close> prop is an object the
  caller owns: the model keeps these mapping objects in a store (a list, an address being
  an index), so that writing to a copy and writing to the caller's object differ.
  \<open>breakpoints\<close> and \<open>cols\<close> are never written to but are compared by identity
  (\<open>propsBreakpoints !== breakpoints\<close>): each is a pair of an identity and its entries.
  A child is its key and the optional layout hint it carries.
\<close>

type_synonym Child = "string \<times> LayoutItem option"

record RProps =
  rp_breakpoint :: "string option"
  rp_breakpoints :: "nat \<times> int obj"
  rp_cols :: "nat \<times> int obj"
  rp_layouts :: nat
  rp_width :: int
  rp_compactType :: "CompactType option"
  rp_margin :: "int \<times> int"
  rp_containerPadding :: "(int \<times> int) option"
  rp_children :: "Child list"

record RState =
  rs_layout :: Layout
  rs_breakpoint :: string
  rs_cols :: int

text \<open>
  The caller's callbacks: \<open>onBreakpointChange(breakpoint, cols)\<close>,
  \<open>onLayoutChange(layout, allLayouts)\<close> with the address of the mapping it receives and
  that mapping's entries at the call, \<open>onWidthChange(width, margin, cols, containerPadding)\<close>.
\<close>

datatype RNotification =
    OnBreakpointChange string int
  | OnLayoutsChange Layout nat "Layout obj"
  | OnWidthChange int "int \<times> int" int "(int \<times> int) option"

text \<open>
  \<open>findOrGenerateResponsiveLayout\<close> (of \<open>./responsiveUtils\<close>) and
  \<open>synchronizeLayoutWithChildren\<close> (of \<open>./utils\<close>) are parameters of \<open>onWidthChange\<close>;
  per the spec both read their arguments and return a new layout.
\<close>

type_synonym FindOrGenerate =
  "Layout obj \<Rightarrow> int obj \<Rightarrow> string \<Rightarrow> string \<Rightarrow> int \<Rightarrow> CompactType option \<Rightarrow> Layout"

type_synonym Synchronize =
  "Layout \<Rightarrow> Child list \<Rightarrow> int \<Rightarrow> CompactType option \<Rightarrow> Layout"

text \<open>\<open>nextProps.breakpoint || getBreakpointFromWidth(...)\<close>: an empty string is falsy.\<close>

definition resolveBreakpoint :: "RProps \<Rightarrow> string option" where
  "resolveBreakpoint nextProps =
     (case rp_breakpoint nextProps of
        Some b \<Rightarrow>
          if b \<noteq> [] then Some b
          else getBreakpointFromWidth (snd (rp_breakpoints nextProps)) (rp_width nextProps)
      | None \<Rightarrow> getBreakpointFromWidth (snd (rp_breakpoints nextProps)) (rp_width nextProps))"

text \<open>
  \<open>onWidthChange(nextProps)\<close>, called on a component with props \<open>thisProps\<close> and state
  \<open>st\<close>. It fails where \<open>getColsFromBreakpoint\<close> does. The result is the new state, the
  store of mapping objects and the callbacks called, in order. \<open>{...layouts}\<close> creates the
  object at address \<open>m\<close>; the two assignments to \<open>modifiedLayouts\<close> write to it.
\<close>

definition onWidthChange ::
    "FindOrGenerate \<Rightarrow> Synchronize \<Rightarrow> RProps \<Rightarrow> RState \<Rightarrow> Layout obj list \<Rightarrow> RProps
       \<Rightarrow> error + (RState \<times> Layout obj list \<times> RNotification list)" where
  "onWidthChange fgen sync thisProps st store nextProps =
     (case resolveBreakpoint nextProps of
        None \<Rightarrow> Inl ConfigurationError
      | Some newBreakpoint \<Rightarrow>
         (case getColsFromBreakpoint newBreakpoint (snd (rp_cols nextProps)) of
            Inl e \<Rightarrow> Inl e
          | Inr newCols \<Rightarrow>
              let lastBreakpoint = rs_breakpoint st;
                  stateLayout = rs_layout st;
                  widthNote = OnWidthChange (rp_width nextProps) (rp_margin nextProps) newCols
                                (rp_containerPadding nextProps)
              in if lastBreakpoint \<noteq> newBreakpoint
                    \<or> fst (rp_breakpoints thisProps) \<noteq> fst (rp_breakpoints nextProps)
                    \<or> fst (rp_cols thisProps) \<noteq> fst (rp_cols nextProps)
                 then
                   let layouts = store ! rp_layouts nextProps;
                       m = length store;
                       store1 = store @ [layouts];
                       store2 = (if \<not> has_key lastBreakpoint layouts
                                 then store1[m := obj_set lastBreakpoint (cloneLayout stateLayout)
                                                      (store1 ! m)]
                                 else store1);
                       layout = fgen (store2 ! m) (snd (rp_breakpoints nextProps)) newBreakpoint
                                  lastBreakpoint newCols (rp_compactType nextProps);
                       layout = sync layout (rp_children nextProps) newCols
                                  (rp_compactType nextProps);
                       store3 = store2[m := obj_set newBreakpoint layout (store2 ! m)]
                   in Inr (st\<lparr>rs_breakpoint := newBreakpoint, rs_layout := layout,
                              rs_cols := newCols\<rparr>,
                           store3,
                           [OnBreakpointChange newBreakpoint newCols,
                            OnLayoutsChange layout m (store3 ! m), widthNote])
                 else Inr (st, store, [widthNote])))"

text \<open>
  The wrapper \<open>onLayoutChange\<close> handed to the inner grid: it calls the caller's
  \<open>onLayoutChange\<close> with the object literal \<open>{...layouts, [breakpoint]: layout}\<close>, a new
  object.
\<close>

definition onLayoutChange ::
    "RProps \<Rightarrow> RState \<Rightarrow> Layout obj list \<Rightarrow> Layout \<Rightarrow> Layout obj list \<times> RNotification list" where
  "onLayoutChange props st store layout =
     (let layouts = store ! rp_layouts props;
          m = length store;
          store1 = store @ [obj_set (rs_breakpoint st) layout layouts]
      in (store1, [OnLayoutsChange layout m (store1 ! m)]))"

section \<open>Concrete inputs\<close>

text \<open>
  An item with a key, a geometry and a static flag and nothing else set; container props
  with 12 columns and vertical compaction; an idle component whose layout is the given
  items.
\<close>

definition item :: "string \<Rightarrow> int \<Rightarrow> int \<Rightarrow> int \<Rightarrow> int \<Rightarrow> bool \<Rightarrow> LayoutItem" where
  "item k x y w h s =
     \<lparr>li_i = k, li_x = x, li_y = y, li_w = w, li_h = h, li_minW = None, li_maxW = None,
      li_minH = None, li_maxH = None, li_static = s, li_isDraggable = None,
      li_isResizable = None, li_isBounded = None, li_persistentW = None,
      li_persistentH = None\<rparr>"

definition props0 :: "bool \<Rightarrow> Props" where
  "props0 preventCollision =
     \<lparr>p_cols = 12, p_compactType = Some Vertical, p_verticalCompact = True,
      p_preventCollision = preventCollision, p_isDraggable = True, p_isResizable = True,
      p_isBounded = False\<rparr>"

definition idle :: "Layout \<Rightarrow> State" where
  "idle layout =
     \<lparr>objects = layout, layoutState = [0..<length layout], activeDrag = None,
      oldDragItem = None, oldLayout = None, oldResizeItem = None\<rparr>"

definition gridItem0 :: GridItemProps where
  "gridItem0 =
     \<lparr>gi_cols = 12, gi_maxRows = Fin 3, gi_x = 2, gi_y = 1, gi_i = ''a'', gi_minW = 1,
      gi_maxW = Fin 6, gi_minH = 1, gi_maxH = PosInf,
      gi_handlers = [''onResizeStart'', ''onResize'', ''onResizeStop'']\<rparr>"

text \<open>Scenario D: item \<open>a\<close> at \<open>x = 0\<close> and a static neighbour on \<open>x \<in> [4, 6)\<close>.\<close>

definition scenarioD :: State where
  "scenarioD = idle [item ''a'' 0 0 2 1 False, item ''s'' 4 0 2 1 True]"

text \<open>
  Container props with 12 columns, no compaction and \<open>preventCollision\<close>, and a
  component with three items that do not overlap, \<open>a\<close> on \<open>[0, 4) \<times> [0, 1)\<close>, \<open>c\<close> below
  it on \<open>[0, 2) \<times> [2, 3)\<close> and \<open>d\<close> under its right end on \<open>[3, 4) \<times> [1, 2)\<close>, in
  which a resize of \<open>a\<close> has started.
\<close>

definition propsFree :: Props where
  "propsFree =
     \<lparr>p_cols = 12, p_compactType = None, p_verticalCompact = True,
      p_preventCollision = True, p_isDraggable = True, p_isResizable = True,
      p_isBounded = False\<rparr>"

definition crowded :: State where
  "crowded =
     fst (handleResizeStart propsFree
            (idle [item ''a'' 0 0 4 1 False, item ''c'' 0 2 2 1 False, item ''d'' 3 1 1 1 False])
            ''a'' 4 1)"

text \<open>A resize session on the only item of a layout: start, one move to \<open>3 \<times> 2\<close>.\<close>

definition resizing1 :: State where
  "resizing1 = fst (handleResizeStart (props0 False) (idle [item ''a'' 0 0 2 2 False]) ''a'' 2 2)"

definition resizing2 :: State where
  "resizing2 = fst (handleResize (props0 False) resizing1 ''a'' 3 2)"

text \<open>
  Scenario A: two items on the same cells. And three items, two of them on the same cell
  and the third overlapping their row, in a grid of three columns.
\<close>

definition scenarioA :: Layout where
  "scenarioA = [item ''a'' 0 0 6 2 False, item ''b'' 0 0 6 2 False]"

definition overlapped :: Layout where
  "overlapped = [item ''a'' 0 1 1 1 False, item ''b'' 0 1 1 1 False, item ''c'' 1 0 2 2 False]"

text \<open>
  Scenario B: the breakpoints \<open>{lg: 1200, md: 996, xs: 480}\<close>. A responsive wrapper at
  breakpoint \<open>lg\<close> whose caller passed a \<open>layouts\<close> object (at address 0) with an entry
  for \<open>md\<close> only, and stand-ins for the two functions \<open>onWidthChange\<close> takes.
\<close>

definition breakpointsB :: "int obj" where
  "breakpointsB = [(''lg'', 1200), (''md'', 996), (''xs'', 480)]"

definition rprops0 :: "int \<Rightarrow> RProps" where
  "rprops0 width =
     \<lparr>rp_breakpoint = None, rp_breakpoints = (0, breakpointsB),
      rp_cols = (1, [(''lg'', 12), (''md'', 10), (''xs'', 4)]), rp_layouts = 0,
      rp_width = width, rp_compactType = Some Vertical, rp_margin = (10, 10),
      rp_containerPadding = None, rp_children = [(''a'', None)]\<rparr>"

definition rstate0 :: RState where
  "rstate0 = \<lparr>rs_layout = [item ''a'' 0 0 6 2 False], rs_breakpoint = ''lg'', rs_cols = 12\<rparr>"

definition store0 :: "Layout obj list" where
  "store0 = [[(''md'', [item ''a'' 0 0 5 2 False])]]"

definition fgen0 :: FindOrGenerate where
  "fgen0 layouts breakpoints breakpoint lastBreakpoint cols compactType =
     (case map_of layouts breakpoint of
        Some l \<Rightarrow> compact (cloneLayout l) compactType cols
      | None \<Rightarrow>
          (case map_of layouts lastBreakpoint of
             Some l \<Rightarrow> compact (cloneLayout l) compactType cols
           | None \<Rightarrow> []))"

definition sync0 :: Synchronize where
  "sync0 layout children cols compactType = compact layout compactType cols"

section \<open>Per-item flags: bounded implies draggable\<close>

text \<open>
  C9. For every rendered grid item, the bounded flag it gets is true only if its
  draggable flag is: a static item, an item whose \<open>isDraggable\<close> is explicitly false,
  and a container whose \<open>isDraggable\<close> is false all give a non-bounded item, whatever
  \<open>isBounded\<close> says on the item or the container.
\<close>

theorem bounded_only_if_draggable:
  assumes "processGridItem p objs L child = Some (l, isDraggable, isResizable, isBounded)"
  shows "(isBounded \<longrightarrow> isDraggable)
       \<and> (li_static l \<or> li_isDraggable l = Some False \<or> \<not> p_isDraggable p \<longrightarrow> \<not> isBounded)"
  using assms
  by (auto simp: processGridItem_def bounded_def draggable_def set_or_unset_def Let_def
           split: option.splits if_splits)

theorem bounded_only_if_draggable_witness:
  "processGridItem ((props0 False)\<lparr>p_isBounded := True\<rparr>) (objects scenarioD)
      (layoutState scenarioD) (Some ''a'') = Some (item ''a'' 0 0 2 1 False, True, True, True)
   \<and> processGridItem ((props0 False)\<lparr>p_isBounded := True\<rparr>) (objects scenarioD)
      (layoutState scenarioD) (Some ''s'') = Some (item ''s'' 4 0 2 1 True, False, False, False)
   \<and> li_static (item ''s'' 4 0 2 1 True)"
proof -
  let ?p = "(props0 False)\<lparr>p_isBounded := True\<rparr>"
  have a: "processGridItem ?p (objects scenarioD) (layoutState scenarioD) (Some ''a'')
             = Some (item ''a'' 0 0 2 1 False, True, True, True)"
    by code_simp
  have s: "processGridItem ?p (objects scenarioD) (layoutState scenarioD) (Some ''s'')
             = Some (item ''s'' 4 0 2 1 True, False, False, False)"
    by code_simp
  have st: "li_static (item ''s'' 4 0 2 1 True)"
    by (simp add: item_def)
  show ?thesis
    using bounded_only_if_draggable [OF a] bounded_only_if_draggable [OF s] a s st by simp
qed

section \<open>The resize wrapper clamps the size it delivers\<close>

lemma clamped_to_max_min:
  "le_js lo hi \<Longrightarrow> max (min_js v hi) lo = clamped_to lo hi v"
  by (cases hi) (auto simp: clamped_to_def)

text \<open>
  C6. For a resize gesture on an item at column \<open>x\<close> of a grid of \<open>cols\<close> columns, whose
  handler is set and whose pixel size gives the whole numbers \<open>rw\<close> and \<open>rh\<close> as rounded
  quotients: the pixel-derived size, which is what \<open>calcWH\<close> returns, is \<open>rw\<close> capped to
  \<open>[0, cols - x]\<close> and \<open>rh\<close> capped to \<open>[0, maxRows - y]\<close>; the size handed to the handler
  is \<open>w\<close>, the pixel-derived width clamped to \<open>[1, cols - x]\<close> and then to \<open>[minW, maxW]\<close>,
  and \<open>h\<close>, the pixel-derived height clamped to \<open>[minH, maxH]\<close>; and clamping to
  \<open>[1, cols - x]\<close> gives the same for the pixel-derived width as for \<open>rw\<close> itself. The
  three intervals are taken non-empty, as the layout invariants (\<open>x + w \<le> cols\<close> with
  \<open>w \<ge> 1\<close>, \<open>minW \<le> maxW\<close>, \<open>minH \<le> maxH\<close>) make them.
\<close>

theorem onResizeHandler_clamps:
  assumes "handlerName \<in> set (gi_handlers p)"
    and "1 \<le> gi_cols p - gi_x p"
    and "le_js (gi_minW p) (gi_maxW p)"
    and "le_js (gi_minH p) (gi_maxH p)"
  shows "calcWH p (Whole rw, Whole rh) =
           (Whole (max (min rw (gi_cols p - gi_x p)) 0),
            Whole (max (min_js rh (minus_js (gi_maxRows p) (gi_y p))) 0))
         \<and> onResizeHandler p (Whole rw, Whole rh) handlerName =
           Some (gi_i p,
                 Whole (clamped_to (gi_minW p) (gi_maxW p)
                   (clamped_to 1 (Fin (gi_cols p - gi_x p))
                      (max (min rw (gi_cols p - gi_x p)) 0))),
                 Whole (clamped_to (gi_minH p) (gi_maxH p)
                   (max (min_js rh (minus_js (gi_maxRows p) (gi_y p))) 0)))
         \<and> clamped_to 1 (Fin (gi_cols p - gi_x p)) (max (min rw (gi_cols p - gi_x p)) 0)
             = clamped_to 1 (Fin (gi_cols p - gi_x p)) rw"
proof -
  define pw where "pw = max (min rw (gi_cols p - gi_x p)) 0"
  define ph where "ph = max (min_js rh (minus_js (gi_maxRows p) (gi_y p))) 0"
  have calc: "calcWH p (Whole rw, Whole rh) = (Whole pw, Whole ph)"
    by (cases "gi_maxRows p") (simp_all add: calcWH_def pw_def ph_def)
  have w1: "max (min pw (gi_cols p - gi_x p)) 1 = clamped_to 1 (Fin (gi_cols p - gi_x p)) pw"
    using assms(2) clamped_to_max_min [of 1 "Fin (gi_cols p - gi_x p)" pw] by simp
  have bound: "min_bound (Whole v) hi = Whole (min_js v hi)" for v hi
    by (cases hi) simp_all
  have handler: "onResizeHandler p (Whole rw, Whole rh) handlerName =
      Some (gi_i p,
            Whole (clamped_to (gi_minW p) (gi_maxW p) (clamped_to 1 (Fin (gi_cols p - gi_x p)) pw)),
            Whole (clamped_to (gi_minH p) (gi_maxH p) ph))"
    using assms(1) calc w1 clamped_to_max_min [OF assms(3)] clamped_to_max_min [OF assms(4)]
    by (simp add: onResizeHandler_def Let_def bound)
  have same: "clamped_to 1 (Fin (gi_cols p - gi_x p)) pw = clamped_to 1 (Fin (gi_cols p - gi_x p)) rw"
    using assms(2) by (auto simp: clamped_to_def pw_def)
  show ?thesis
    using calc handler same unfolding pw_def ph_def by simp
qed

theorem onResizeHandler_clamps_witness:
  "''onResize'' \<in> set (gi_handlers gridItem0) \<and> 1 \<le> gi_cols gridItem0 - gi_x gridItem0
   \<and> le_js (gi_minW gridItem0) (gi_maxW gridItem0) \<and> le_js (gi_minH gridItem0) (gi_maxH gridItem0)
   \<and> calcWH gridItem0 (Whole 9, Whole 4) = (Whole 9, Whole 2)
   \<and> onResizeHandler gridItem0 (Whole 9, Whole 4) ''onResize'' = Some (''a'', Whole 6, Whole 2)"
proof -
  have h: "''onResize'' \<in> set (gi_handlers gridItem0)" "1 \<le> gi_cols gridItem0 - gi_x gridItem0"
    "le_js (gi_minW gridItem0) (gi_maxW gridItem0)" "le_js (gi_minH gridItem0) (gi_maxH gridItem0)"
    by (simp_all add: gridItem0_def)
  show ?thesis
    using h onResizeHandler_clamps [OF h, of 9 4]
    by (simp add: clamped_to_def gridItem0_def)
qed

section \<open>Resizing against neighbours with preventCollision\<close>

lemma leastXY_split:
  "foldl (\<lambda>(leastX, leastY) layoutItem.
              (if li_x layoutItem > li_x l then acc_min leastX (li_x layoutItem) else leastX,
               if li_y layoutItem > li_y l then acc_min leastY (li_y layoutItem) else leastY))
       (ax, ay) cs = (least_of li_x (li_x l) ax cs, least_of li_y (li_y l) ay cs)"
  by (induction cs arbitrary: ax ay) (simp_all add: least_of_def)

lemma Min_insert_min:
  fixes b c :: int
  assumes "finite A"
  shows "Min (insert (min b c) A) = Min (insert b (insert c A))"
proof (cases "A = {}")
  case True
  then show ?thesis by simp
next
  case False
  then show ?thesis using assms by (simp add: min.assoc)
qed

lemma least_of_Fin:
  "least_of f v0 (Fin b) cs = Fin (Min (insert b (f ` {c \<in> set cs. f c > v0})))"
proof (induction cs arbitrary: b)
  case Nil
  then show ?case by (simp add: least_of_def)
next
  case (Cons c cs)
  have fin: "finite (f ` {c \<in> set cs. f c > v0})" by simp
  show ?case
  proof (cases "f c > v0")
    case True
    then have "least_of f v0 (Fin b) (c # cs) = least_of f v0 (Fin (min b (f c))) cs"
      by (simp add: least_of_def)
    also have "\<dots> = Fin (Min (insert (min b (f c)) (f ` {c \<in> set cs. f c > v0})))"
      by (rule Cons.IH)
    also have "Min (insert (min b (f c)) (f ` {c \<in> set cs. f c > v0}))
                 = Min (insert b (insert (f c) (f ` {c \<in> set cs. f c > v0})))"
      using fin by (rule Min_insert_min)
    also have "insert (f c) (f ` {c \<in> set cs. f c > v0}) = f ` {c' \<in> set (c # cs). f c' > v0}"
      using True by auto
    finally show ?thesis .
  next
    case False
    then have "least_of f v0 (Fin b) (c # cs) = least_of f v0 (Fin b) cs"
      by (simp add: least_of_def)
    moreover have "{c' \<in> set (c # cs). f c' > v0} = {c \<in> set cs. f c > v0}"
      using False by auto
    ultimately show ?thesis using Cons.IH by simp
  qed
qed

lemma least_of_PosInf:
  "least_of f v0 PosInf cs =
     (if {c \<in> set cs. f c > v0} = {} then PosInf else Fin (Min (f ` {c \<in> set cs. f c > v0})))"
proof (induction cs)
  case Nil
  then show ?case by (simp add: least_of_def)
next
  case (Cons c cs)
  show ?case
  proof (cases "f c > v0")
    case True
    then have "least_of f v0 PosInf (c # cs) = least_of f v0 (Fin (f c)) cs"
      by (simp add: least_of_def)
    also have "\<dots> = Fin (Min (insert (f c) (f ` {c \<in> set cs. f c > v0})))"
      by (rule least_of_Fin)
    also have "insert (f c) (f ` {c \<in> set cs. f c > v0}) = f ` {c' \<in> set (c # cs). f c' > v0}"
      using True by auto
    finally show ?thesis using True by auto
  next
    case False
    then have "least_of f v0 PosInf (c # cs) = least_of f v0 PosInf cs"
      by (simp add: least_of_def)
    moreover have "{c' \<in> set (c # cs). f c' > v0} = {c \<in> set cs. f c > v0}"
      using False by auto
    ultimately show ?thesis using Cons.IH by simp
  qed
qed

lemma leastXY_eq:
  "leastXY l cs = (least_of li_x (li_x l) PosInf cs, least_of li_y (li_y l) PosInf cs)"
  unfolding leastXY_def by (rule leastXY_split)

lemma resizedItem_colliding:
  assumes "cs = resizeCollisions layout l w h" and "cs \<noteq> []"
  shows "resizedItem True layout l w h =
           l\<lparr>li_w := (if {c \<in> set cs. li_x l < li_x c} = {} then li_w l
                     else Min (li_x ` {c \<in> set cs. li_x l < li_x c}) - li_x l),
             li_h := (if {c \<in> set cs. li_y l < li_y c} = {} then li_h l
                     else Min (li_y ` {c \<in> set cs. li_y l < li_y c}) - li_y l)\<rparr>"
proof -
  let ?X = "{c \<in> set cs. li_x l < li_x c}" and ?Y = "{c \<in> set cs. li_y l < li_y c}"
  have lx: "fst (leastXY l cs) = (if ?X = {} then PosInf else Fin (Min (li_x ` ?X)))"
    by (simp only: leastXY_eq fst_conv least_of_PosInf)
  have ly: "snd (leastXY l cs) = (if ?Y = {} then PosInf else Fin (Min (li_y ` ?Y)))"
    by (simp only: leastXY_eq snd_conv least_of_PosInf)
  have r: "resizedItem True layout l w h =
             (let l1 = (case fst (leastXY l cs) of Fin lx \<Rightarrow> l\<lparr>li_w := lx - li_x l\<rparr> | PosInf \<Rightarrow> l)
              in case snd (leastXY l cs) of Fin ly \<Rightarrow> l1\<lparr>li_h := ly - li_y l1\<rparr> | PosInf \<Rightarrow> l1)"
    using assms by (simp add: resizedItem_def Let_def case_prod_beta)
  show ?thesis
    unfolding r lx ly by (cases "?X = {}"; cases "?Y = {}") (auto simp: Let_def)
qed

lemma resizeCollisions_overlap:
  assumes "c \<in> set (resizeCollisions layout l w h)"
  shows "li_x c < li_x l + w \<and> li_y c < li_y l + h"
  using assms by (auto simp: resizeCollisions_def getAllCollisions_def collides_def)

text \<open>
  What \<open>handleResize\<close> does under \<open>preventCollision\<close> when the item \<open>l\<close> with the requested
  size collides with other items: \<open>onResize\<close> is still called, with the item changed in
  place and a placeholder of its size. The width becomes \<open>leastX - x\<close>, \<open>leastX\<close> the
  least \<open>x\<close> of the colliding items to the right of \<open>l.x\<close>, and the height \<open>leastY - y\<close>
  likewise; where there is such a neighbour the new extent is positive, below the requested
  one, and ends where the nearest such neighbour begins. Where there is none, the extent is
  left as it was before the gesture.
\<close>

lemma handleResize_colliding:
  assumes prevent: "p_preventCollision p"
    and found: "getLayoutItem (objects st) (layoutState st) k = Some a"
    and l: "l = objects st ! a"
    and cs: "cs = resizeCollisions (deref (objects st) (layoutState st)) l w h"
    and ne: "cs \<noteq> []"
  shows "\<exists>st' l' ph.
           handleResize p st k w h =
             (st', [ItemEvent OnResize (deref ((objects st)[a := l']) (layoutState st))
                      (oldResizeItem st) (Some l') (Some ph)])
         \<and> li_x l' = li_x l \<and> li_y l' = li_y l \<and> ph_w ph = li_w l' \<and> ph_h ph = li_h l'
         \<and> li_w l' = (if {c \<in> set cs. li_x l < li_x c} = {} then li_w l
                       else Min (li_x ` {c \<in> set cs. li_x l < li_x c}) - li_x l)
         \<and> li_h l' = (if {c \<in> set cs. li_y l < li_y c} = {} then li_h l
                       else Min (li_y ` {c \<in> set cs. li_y l < li_y c}) - li_y l)
         \<and> (\<forall>c\<in>set cs. li_x l < li_x c \<longrightarrow>
                0 < li_w l' \<and> li_w l' < w \<and> li_x l + li_w l' \<le> li_x c)
         \<and> (\<forall>c\<in>set cs. li_y l < li_y c \<longrightarrow>
                0 < li_h l' \<and> li_h l' < h \<and> li_y l + li_h l' \<le> li_y c)"
proof -
  let ?X = "{c \<in> set cs. li_x l < li_x c}" and ?Y = "{c \<in> set cs. li_y l < li_y c}"
  define l' where "l' = resizedItem (p_preventCollision p) (deref (objects st) (layoutState st)) l w h"
  have l'_eq: "l' = l\<lparr>li_w := (if ?X = {} then li_w l else Min (li_x ` ?X) - li_x l),
                      li_h := (if ?Y = {} then li_h l else Min (li_y ` ?Y) - li_y l)\<rparr>"
    unfolding l'_def using prevent resizedItem_colliding [OF cs ne] by simp
  define ph where "ph = \<lparr>ph_w = li_w l', ph_h = li_h l', ph_x = li_x l', ph_y = li_y l',
                             ph_placeholder = False, ph_static = True, ph_i = k\<rparr>"
  have run: "\<exists>st'. handleResize p st k w h =
             (st', [ItemEvent OnResize (deref ((objects st)[a := l']) (layoutState st))
                      (oldResizeItem st) (Some l') (Some ph)])"
    using found l by (simp add: handleResize_def Let_def l'_def ph_def split: prod.splits)
  have xs: "0 < li_w l' \<and> li_w l' < w \<and> li_x l + li_w l' \<le> li_x c"
    if c: "c \<in> set cs" "li_x l < li_x c" for c
  proof -
    have fin: "finite (li_x ` ?X)" and nonempty: "li_x ` ?X \<noteq> {}" using c by auto
    have "Min (li_x ` ?X) \<in> li_x ` ?X" using fin nonempty by (rule Min_in)
    then obtain c0 where c0: "c0 \<in> set cs" "li_x l < li_x c0" "Min (li_x ` ?X) = li_x c0" by auto
    have "li_x c0 < li_x l + w" using c0(1) resizeCollisions_overlap cs by blast
    moreover have "Min (li_x ` ?X) \<le> li_x c" using fin c by (intro Min_le) auto
    moreover have "li_w l' = Min (li_x ` ?X) - li_x l" using c by (auto simp: l'_eq)
    ultimately show ?thesis using c0 by simp
  qed
  have ys: "0 < li_h l' \<and> li_h l' < h \<and> li_y l + li_h l' \<le> li_y c"
    if c: "c \<in> set cs" "li_y l < li_y c" for c
  proof -
    have fin: "finite (li_y ` ?Y)" and nonempty: "li_y ` ?Y \<noteq> {}" using c by auto
    have "Min (li_y ` ?Y) \<in> li_y ` ?Y" using fin nonempty by (rule Min_in)
    then obtain c0 where c0: "c0 \<in> set cs" "li_y l < li_y c0" "Min (li_y ` ?Y) = li_y c0" by auto
    have "li_y c0 < li_y l + h" using c0(1) resizeCollisions_overlap cs by blast
    moreover have "Min (li_y ` ?Y) \<le> li_y c" using fin c by (intro Min_le) auto
    moreover have "li_h l' = Min (li_y ` ?Y) - li_y l" using c by (auto simp: l'_eq)
    ultimately show ?thesis using c0 by simp
  qed
  from run obtain st' where st': "handleResize p st k w h =
             (st', [ItemEvent OnResize (deref ((objects st)[a := l']) (layoutState st))
                      (oldResizeItem st) (Some l') (Some ph)])" by blast
  have geo: "li_x l' = li_x l \<and> li_y l' = li_y l \<and> ph_w ph = li_w l' \<and> ph_h ph = li_h l'"
    by (simp add: l'_eq ph_def)
  have wh: "li_w l' = (if ?X = {} then li_w l else Min (li_x ` ?X) - li_x l)
          \<and> li_h l' = (if ?Y = {} then li_h l else Min (li_y ` ?Y) - li_y l)"
    by (simp add: l'_eq)
  show ?thesis
    using st' geo wh xs ys by blast
qed

text \<open>Scenario D: \<open>a\<close> at \<open>x = 0\<close>, asked to be 5 wide, stops at the static neighbour: \<open>w = 4\<close>.\<close>

lemma handleResize_scenarioD:
  "p_preventCollision (props0 True)
   \<and> getLayoutItem (objects scenarioD) (layoutState scenarioD) ''a'' = Some 0
   \<and> resizeCollisions (deref (objects scenarioD) (layoutState scenarioD))
        (item ''a'' 0 0 2 1 False) 5 1 = [item ''s'' 4 0 2 1 True]
   \<and> (\<exists>st' l' ph.
         handleResize (props0 True) scenarioD ''a'' 5 1 =
           (st', [ItemEvent OnResize [l', item ''s'' 4 0 2 1 True] None (Some l') (Some ph)])
         \<and> li_x l' = 0 \<and> li_w l' = 4 \<and> li_h l' = 1 \<and> ph_w ph = 4)"
proof -
  let ?a = "item ''a'' 0 0 2 1 False" and ?s = "item ''s'' 4 0 2 1 True"
  have h1: "p_preventCollision (props0 True)"
    by (simp add: props0_def)
  have h2: "getLayoutItem (objects scenarioD) (layoutState scenarioD) ''a'' = Some 0"
    by code_simp
  have h3: "?a = objects scenarioD ! 0"
    by code_simp
  have cs: "resizeCollisions (deref (objects scenarioD) (layoutState scenarioD)) ?a 5 1 = [?s]"
    by code_simp
  have h4: "[?s] = resizeCollisions (deref (objects scenarioD) (layoutState scenarioD)) ?a 5 1"
    using cs by simp
  have h5: "[?s] \<noteq> []"
    by simp
  have X: "{c \<in> set [?s]. li_x ?a < li_x c} = {?s}" and Y: "{c \<in> set [?s]. li_y ?a < li_y c} = {}"
    by (auto simp: item_def)
  from handleResize_colliding [OF h1 h2 h3 h4 h5]
  obtain st' l' ph where
    run: "handleResize (props0 True) scenarioD ''a'' 5 1 =
            (st', [ItemEvent OnResize (deref ((objects scenarioD)[0 := l']) (layoutState scenarioD))
                     (oldResizeItem scenarioD) (Some l') (Some ph)])"
    and geo: "li_x l' = li_x ?a" "ph_w ph = li_w l'"
    and w: "li_w l' = (if {c \<in> set [?s]. li_x ?a < li_x c} = {} then li_w ?a
                       else Min (li_x ` {c \<in> set [?s]. li_x ?a < li_x c}) - li_x ?a)"
    and h: "li_h l' = (if {c \<in> set [?s]. li_y ?a < li_y c} = {} then li_h ?a
                       else Min (li_y ` {c \<in> set [?s]. li_y ?a < li_y c}) - li_y ?a)"
    by blast
  have w4: "li_w l' = 4" using w unfolding X by (simp add: item_def)
  have h1': "li_h l' = 1" using h unfolding Y by (simp add: item_def)
  have lay: "deref ((objects scenarioD)[0 := l']) (layoutState scenarioD) = [l', ?s]"
    by (simp add: scenarioD_def idle_def deref_def upt_rec)
  have old: "oldResizeItem scenarioD = None"
    by (simp add: scenarioD_def idle_def)
  have "handleResize (props0 True) scenarioD ''a'' 5 1 =
           (st', [ItemEvent OnResize [l', ?s] None (Some l') (Some ph)])
         \<and> li_x l' = 0 \<and> li_w l' = 4 \<and> li_h l' = 1 \<and> ph_w ph = 4"
    using run geo w4 h1' lay old by (simp add: item_def)
  then show ?thesis
    using h1 h2 cs by blast
qed

text \<open>
  C1. During a resize move with \<open>preventCollision\<close>, when the item with the requested size
  collides with another item, the item is to be shrunk to the largest size that touches the
  nearest colliding neighbour on each axis and overlaps nothing, and the source announces
  as much (\<open>adjust w && h to maximum allowed space\<close>). The code misses the case of an
  axis on which no colliding item lies beyond the item's origin: there it assigns nothing,
  and the item keeps the extent it had before the gesture. Item \<open>a\<close> of the three items
  above, 4 wide and 1 high, is asked to become 2 wide and 3 high. That rectangle collides
  with \<open>c\<close> only, which is below \<open>a\<close> and not to its right. \<open>onResize\<close> is called with \<open>a\<close>
  at 4 by 2, and that layout is stored: \<open>a\<close> is wider than requested and now overlaps
  \<open>d\<close>, while at 2 by 2 it would have touched \<open>c\<close> and overlapped nothing.
\<close>

theorem handleResize_keeps_stale_width:
  "deref (objects crowded) (layoutState crowded)
     = [item ''a'' 0 0 4 1 False, item ''c'' 0 2 2 1 False, item ''d'' 3 1 1 1 False]
   \<and> resizeCollisions (deref (objects crowded) (layoutState crowded)) (item ''a'' 0 0 4 1 False) 2 3
     = [item ''c'' 0 2 2 1 False]
   \<and> handleResize propsFree crowded ''a'' 2 3 =
       (\<lparr>objects = [item ''a'' 0 0 4 2 False, item ''c'' 0 2 2 1 False, item ''d'' 3 1 1 1 False,
                     item ''a'' 0 0 4 2 False, item ''c'' 0 2 2 1 False, item ''d'' 3 1 1 1 False],
          layoutState = [3, 4, 5],
          activeDrag = Some \<lparr>ph_w = 4, ph_h = 2, ph_x = 0, ph_y = 0, ph_placeholder = False,
                               ph_static = True, ph_i = ''a''\<rparr>,
          oldDragItem = None, oldLayout = Some [0, 1, 2],
          oldResizeItem = Some (item ''a'' 0 0 4 1 False)\<rparr>,
        [ItemEvent OnResize
           [item ''a'' 0 0 4 2 False, item ''c'' 0 2 2 1 False, item ''d'' 3 1 1 1 False]
           (Some (item ''a'' 0 0 4 1 False)) (Some (item ''a'' 0 0 4 2 False))
           (Some \<lparr>ph_w = 4, ph_h = 2, ph_x = 0, ph_y = 0, ph_placeholder = False,
                     ph_static = True, ph_i = ''a''\<rparr>)])
   \<and> collides (item ''d'' 3 1 1 1 False) (item ''a'' 0 0 4 2 False)
   \<and> getAllCollisions (deref (objects crowded) (layoutState crowded)) (item ''a'' 0 0 2 2 False) = []"
  by code_simp

section \<open>Events for a key that is not in the layout\<close>

text \<open>
  Five of the six handlers return at once when \<open>getLayoutItem\<close> finds nothing: the state
  is the same and no callback is called.
\<close>

lemma guarded_handlers_absent_key:
  assumes "getLayoutItem (objects st) (layoutState st) k = None"
  shows "handleDragStart p st k x y = (st, [])"
    and "handleDrag mv p st k x y = (st, [])"
    and "handleDragStop mv p st k x y = (st, [])"
    and "handleResizeStart p st k w h = (st, [])"
    and "handleResize p st k w h = (st, [])"
  using assms
  by (simp_all add: handleDragStart_def handleDrag_def handleDragStop_def
      handleResizeStart_def handleResize_def)

text \<open>
  C2. \<open>handleResizeStop\<close> has no such guard. In a resize session on \<open>a\<close>, a stop event
  for the key \<open>gone\<close>, which is not in the layout, calls \<open>onResizeStop\<close> with no item,
  stores a new layout array and ends the session (\<open>oldResizeItem\<close> and \<open>oldLayout\<close> are
  reset).
\<close>

theorem handleResizeStop_absent_key:
  "getLayoutItem (objects resizing1) (layoutState resizing1) ''gone'' = None
   \<and> oldLayout resizing1 = Some [0]
   \<and> handleResizeStop (props0 False) resizing1 ''gone'' 1 1 =
       (resizing1\<lparr>objects := [item ''a'' 0 0 2 2 False, item ''a'' 0 0 2 2 False],
                  layoutState := [1], activeDrag := None, oldResizeItem := None,
                  oldLayout := None\<rparr>,
        [ItemEvent OnResizeStop [item ''a'' 0 0 2 2 False] (Some (item ''a'' 0 0 2 2 False))
           None None])"
  by code_simp

section \<open>Change detection at the end of a session\<close>

lemma deref_alloc:
  "alloc objs vs = (objs', L) \<Longrightarrow> deref objs' L = vs"
  by (auto simp: alloc_def deref_def intro!: nth_equalityI)

lemma alloc_keeps:
  "alloc objs vs = (objs', L) \<Longrightarrow> a < length objs \<Longrightarrow> objs' ! a = objs ! a"
  by (auto simp: alloc_def nth_append)

lemma handleLayoutMaybeChanged_snapshot:
  "handleLayoutMaybeChanged objs layoutState0 newLayoutState (Some old) =
     (if deref objs old = deref objs newLayoutState then []
      else [OnLayoutChange (deref objs newLayoutState)])"
  by (simp add: handleLayoutMaybeChanged_def)

text \<open>
  C4. \<open>handleLayoutMaybeChanged\<close> compares the final layout with the array stored at the
  start of the session as that array is at the stop. \<open>setOldLayout(layoutState)\<close> stores
  the array without copying it, and the first \<open>handleResize\<close> of the session writes the
  new size into an item object of that very array. A resize session on the only item of a
  layout, from \<open>2 \<times> 2\<close> to \<open>3 \<times> 2\<close> in one move: the layout at the start has \<open>w = 2\<close>,
  the final layout has \<open>w = 3\<close>, the stored array shows \<open>w = 3\<close> by then, and the stop
  calls \<open>onResizeStop\<close> only, not \<open>onLayoutChange\<close>.
\<close>

theorem resize_stop_misses_layout_change:
  "deref (objects resizing1) (layoutState resizing1) = [item ''a'' 0 0 2 2 False]
   \<and> oldLayout resizing1 = Some [0]
   \<and> oldLayout resizing2 = Some [0]
   \<and> deref (objects resizing2) [0] =
        [(item ''a'' 0 0 3 2 False)\<lparr>li_persistentW := Some 3, li_persistentH := Some 2\<rparr>]
   \<and> deref (objects (fst (handleResizeStop (props0 False) resizing2 ''a'' 3 2)))
        (layoutState (fst (handleResizeStop (props0 False) resizing2 ''a'' 3 2))) =
        [(item ''a'' 0 0 3 2 False)\<lparr>li_persistentW := Some 3, li_persistentH := Some 2\<rparr>]
   \<and> snd (handleResizeStop (props0 False) resizing2 ''a'' 3 2) =
        [ItemEvent OnResizeStop
           [(item ''a'' 0 0 3 2 False)\<lparr>li_persistentW := Some 3, li_persistentH := Some 2\<rparr>]
           (Some (item ''a'' 0 0 2 2 False))
           (Some ((item ''a'' 0 0 3 2 False)\<lparr>li_persistentW := Some 3, li_persistentH := Some 2\<rparr>))
           None]"
  by code_simp

section \<open>What a drag move reports and stores\<close>

text \<open>
  C5, as the claim states it, fails: the layout \<open>onDrag\<close> receives is the one
  \<open>moveElement\<close> returned, not the compacted layout that is stored. One item at the
  origin dragged to \<open>(0, 3)\<close> under vertical compaction: \<open>onDrag\<close> sees it at \<open>y = 3\<close>, the
  stored layout has it back at \<open>y = 0\<close>.
\<close>

theorem handleDrag_notifies_compacted_counterexample:
  "snd (handleDrag moveElement (props0 False) (idle [item ''a'' 0 0 1 1 False]) ''a'' 0 3) =
     [ItemEvent OnDrag [item ''a'' 0 3 1 1 False] None (Some (item ''a'' 0 3 1 1 False))
        (Some \<lparr>ph_w = 1, ph_h = 1, ph_x = 0, ph_y = 0, ph_placeholder = True,
               ph_static = False, ph_i = ''a''\<rparr>)]
   \<and> deref (objects (fst (handleDrag moveElement (props0 False)
                             (idle [item ''a'' 0 0 1 1 False]) ''a'' 0 3)))
        (layoutState (fst (handleDrag moveElement (props0 False)
                             (idle [item ''a'' 0 0 1 1 False]) ''a'' 0 3)))
      = [item ''a'' 0 0 1 1 False]
   \<and> [item ''a'' 0 3 1 1 False] \<noteq> [item ''a'' 0 0 1 1 False]"
  by code_simp

text \<open>
  C5, amended. During a drag move on an item of the layout, for every \<open>moveElement\<close>: the
  placeholder \<open>{w, h, x, y, i}\<close> is built from the item as it is before the move;
  \<open>moveElement\<close> is called with \<open>isUserAction = true\<close>; \<open>onDrag\<close> is called once, with the
  layout \<open>moveElement\<close> returned (not yet compacted), the old drag item, the item object
  and the placeholder; the compaction of that layout is stored as the layout, the
  placeholder as \<open>activeDrag\<close>, and the session snapshots are left alone.
\<close>

theorem handleDrag_notifies_before_compaction:
  assumes found: "getLayoutItem (objects st) (layoutState st) k = Some a"
    and mv: "mv (objects st) (layoutState st) a x y True (p_preventCollision p)
               (fixCompactType p) (p_cols p) = (objs1, modifiedLayout)"
    and ph: "placeholder = \<lparr>ph_w = li_w (objects st ! a), ph_h = li_h (objects st ! a),
                             ph_x = li_x (objects st ! a), ph_y = li_y (objects st ! a),
                             ph_placeholder = True, ph_static = False, ph_i = k\<rparr>"
    and run: "handleDrag mv p st k x y = (st', notes)"
  shows "notes = [ItemEvent OnDrag (deref objs1 modifiedLayout) (oldDragItem st)
                    (Some (objs1 ! a)) (Some placeholder)]
       \<and> deref (objects st') (layoutState st') =
           compact (deref objs1 modifiedLayout) (fixCompactType p) (p_cols p)
       \<and> activeDrag st' = Some placeholder
       \<and> oldDragItem st' = oldDragItem st \<and> oldLayout st' = oldLayout st
       \<and> oldResizeItem st' = oldResizeItem st"
proof -
  obtain objs2 newLayout where al:
    "alloc objs1 (compact (deref objs1 modifiedLayout) (fixCompactType p) (p_cols p)) = (objs2, newLayout)"
    by (cases "alloc objs1 (compact (deref objs1 modifiedLayout) (fixCompactType p) (p_cols p))")
  have st': "st' = st\<lparr>objects := objs2, layoutState := newLayout, activeDrag := Some placeholder\<rparr>"
    and ns: "notes = [ItemEvent OnDrag (deref objs1 modifiedLayout) (oldDragItem st)
                    (Some (objs1 ! a)) (Some placeholder)]"
    using run found mv al ph by (simp_all add: handleDrag_def Let_def)
  show ?thesis
    using st' ns deref_alloc [OF al] by simp
qed

theorem handleDrag_notifies_before_compaction_witness:
  "getLayoutItem (objects (idle [item ''a'' 0 0 1 1 False]))
      (layoutState (idle [item ''a'' 0 0 1 1 False])) ''a'' = Some 0
   \<and> moveElement (objects (idle [item ''a'' 0 0 1 1 False]))
        (layoutState (idle [item ''a'' 0 0 1 1 False])) 0 0 3 True
        (p_preventCollision (props0 False)) (fixCompactType (props0 False)) (p_cols (props0 False))
      = ([item ''a'' 0 3 1 1 False], [0])
   \<and> snd (handleDrag moveElement (props0 False) (idle [item ''a'' 0 0 1 1 False]) ''a'' 0 3) =
       [ItemEvent OnDrag [item ''a'' 0 3 1 1 False] None (Some (item ''a'' 0 3 1 1 False))
          (Some \<lparr>ph_w = 1, ph_h = 1, ph_x = 0, ph_y = 0, ph_placeholder = True,
                 ph_static = False, ph_i = ''a''\<rparr>)]
   \<and> deref (objects (fst (handleDrag moveElement (props0 False)
                             (idle [item ''a'' 0 0 1 1 False]) ''a'' 0 3)))
        (layoutState (fst (handleDrag moveElement (props0 False)
                             (idle [item ''a'' 0 0 1 1 False]) ''a'' 0 3)))
      = compact [item ''a'' 0 3 1 1 False] (Some Vertical) 12
   \<and> activeDrag (fst (handleDrag moveElement (props0 False)
                         (idle [item ''a'' 0 0 1 1 False]) ''a'' 0 3))
      = Some \<lparr>ph_w = 1, ph_h = 1, ph_x = 0, ph_y = 0, ph_placeholder = True,
               ph_static = False, ph_i = ''a''\<rparr>"
proof -
  let ?st = "idle [item ''a'' 0 0 1 1 False]" and ?p = "props0 False"
  have found: "getLayoutItem (objects ?st) (layoutState ?st) ''a'' = Some 0"
    by code_simp
  have mv: "moveElement (objects ?st) (layoutState ?st) 0 0 3 True (p_preventCollision ?p)
              (fixCompactType ?p) (p_cols ?p) = ([item ''a'' 0 3 1 1 False], [0])"
    by code_simp
  have ph: "\<lparr>ph_w = 1, ph_h = 1, ph_x = 0, ph_y = 0, ph_placeholder = True,
             ph_static = False, ph_i = ''a''\<rparr> =
            \<lparr>ph_w = li_w (objects ?st ! 0), ph_h = li_h (objects ?st ! 0),
             ph_x = li_x (objects ?st ! 0), ph_y = li_y (objects ?st ! 0),
             ph_placeholder = True, ph_static = False, ph_i = ''a''\<rparr>"
    by (simp add: idle_def item_def)
  have run: "handleDrag moveElement ?p ?st ''a'' 0 3 =
               (fst (handleDrag moveElement ?p ?st ''a'' 0 3),
                snd (handleDrag moveElement ?p ?st ''a'' 0 3))"
    by simp
  have ct: "fixCompactType ?p = Some Vertical" "p_cols ?p = 12" "oldDragItem ?st = None"
    by (simp_all add: fixCompactType_def props0_def idle_def)
  have nth: "[item ''a'' 0 3 1 1 False] ! 0 = item ''a'' 0 3 1 1 False"
       "deref [item ''a'' 0 3 1 1 False] [0] = [item ''a'' 0 3 1 1 False]"
    by (simp_all add: deref_def)
  show ?thesis
    using handleDrag_notifies_before_compaction [OF found mv ph run] found mv
    unfolding ct nth by simp
qed

section \<open>The responsive wrapper and the caller's layouts\<close>

lemma map_of_obj_set: "map_of (obj_set k v ob) = (map_of ob)(k \<mapsto> v)"
  by (induction ob) (auto simp: fun_eq_iff)

lemma cloneLayout_same: "cloneLayout layout = layout"
  by (induction layout) (simp_all add: cloneLayout_def cloneLayoutItem_def)

text \<open>
  C7. The responsive wrapper never writes to the caller's layouts mapping. A successful
  \<open>onWidthChange\<close> leaves every mapping object that existed before as it was, the one
  the \<open>layouts\<close> prop points to among them; when it calls \<open>onLayoutChange\<close>, the mapping
  it passes is an object created in this call. The wrapper \<open>onLayoutChange\<close> likewise
  leaves the existing objects alone and passes a new one, whose entries are those of the
  \<open>layouts\<close> prop with the current breakpoint's entry replaced by the new layout.
\<close>

theorem layouts_prop_never_written:
  assumes addr: "rp_layouts nextProps < length store"
  shows "(\<forall>st' store' notes.
            onWidthChange fgen sync thisProps st store nextProps = Inr (st', store', notes) \<longrightarrow>
              take (length store) store' = store
            \<and> store' ! rp_layouts nextProps = store ! rp_layouts nextProps
            \<and> (\<forall>layout m entries. OnLayoutsChange layout m entries \<in> set notes \<longrightarrow>
                  m = length store \<and> m \<noteq> rp_layouts nextProps \<and> entries = store' ! m))
       \<and> take (length store) (fst (onLayoutChange nextProps st store layout)) = store
       \<and> fst (onLayoutChange nextProps st store layout) ! rp_layouts nextProps
           = store ! rp_layouts nextProps
       \<and> snd (onLayoutChange nextProps st store layout) =
           [OnLayoutsChange layout (length store)
              (obj_set (rs_breakpoint st) layout (store ! rp_layouts nextProps))]
       \<and> map_of (obj_set (rs_breakpoint st) layout (store ! rp_layouts nextProps))
           = (map_of (store ! rp_layouts nextProps))(rs_breakpoint st \<mapsto> layout)"
proof -
  have a: "take (length store) store' = store
            \<and> store' ! rp_layouts nextProps = store ! rp_layouts nextProps
            \<and> (\<forall>layout m entries. OnLayoutsChange layout m entries \<in> set ns \<longrightarrow>
                  m = length store \<and> m \<noteq> rp_layouts nextProps \<and> entries = store' ! m)"
    if run: "onWidthChange fgen sync thisProps st store nextProps = Inr (st', store', ns)"
    for st' store' ns
  proof (cases "resolveBreakpoint nextProps")
    case None
    then show ?thesis using run by (simp add: onWidthChange_def)
  next
    case (Some newBreakpoint)
    show ?thesis
    proof (cases "getColsFromBreakpoint newBreakpoint (snd (rp_cols nextProps))")
      case (Inl e)
      then show ?thesis using run Some by (simp add: onWidthChange_def)
    next
      case (Inr newCols)
      show ?thesis
      proof (cases "rs_breakpoint st \<noteq> newBreakpoint
                    \<or> fst (rp_breakpoints thisProps) \<noteq> fst (rp_breakpoints nextProps)
                    \<or> fst (rp_cols thisProps) \<noteq> fst (rp_cols nextProps)")
        case False
        from run have "store' = store \<and> ns = [OnWidthChange (rp_width nextProps) (rp_margin nextProps)
                                               newCols (rp_containerPadding nextProps)]"
          by (simp only: onWidthChange_def Some Inr option.case sum.case Let_def
                if_not_P [OF False] sum.inject prod.inject)
        then show ?thesis by simp
      next
        case True
        define store1 where "store1 = store @ [store ! rp_layouts nextProps]"
        define store2 where "store2 =
            (if \<not> has_key (rs_breakpoint st) (store ! rp_layouts nextProps)
             then store1[length store := obj_set (rs_breakpoint st) (cloneLayout (rs_layout st))
                                            (store1 ! length store)]
             else store1)"
        define layout where "layout =
            sync (fgen (store2 ! length store) (snd (rp_breakpoints nextProps)) newBreakpoint
                    (rs_breakpoint st) newCols (rp_compactType nextProps))
              (rp_children nextProps) newCols (rp_compactType nextProps)"
        define store3 where
          "store3 = store2[length store := obj_set newBreakpoint layout (store2 ! length store)]"
        have res: "onWidthChange fgen sync thisProps st store nextProps =
                     Inr (st\<lparr>rs_breakpoint := newBreakpoint, rs_layout := layout,
                              rs_cols := newCols\<rparr>,
                          store3,
                          [OnBreakpointChange newBreakpoint newCols,
                           OnLayoutsChange layout (length store) (store3 ! length store),
                           OnWidthChange (rp_width nextProps) (rp_margin nextProps) newCols
                             (rp_containerPadding nextProps)])"
          by (simp only: onWidthChange_def Some Inr option.case sum.case Let_def
                if_P [OF True] store3_def layout_def store2_def store1_def)
        have store': "store' = store3"
          and ns: "ns = [OnBreakpointChange newBreakpoint newCols,
                         OnLayoutsChange layout (length store) (store3 ! length store),
                         OnWidthChange (rp_width nextProps) (rp_margin nextProps) newCols
                           (rp_containerPadding nextProps)]"
          using run unfolding res by auto
        have pre: "take (length store) store2 = store" "length store < length store2"
          by (simp_all add: store2_def store1_def)
        have "take (length store) store' = take (length store) store2"
          by (simp add: store' store3_def)
        also have "\<dots> = store"
          by (rule pre(1))
        finally have t: "take (length store) store' = store" .
        have k: "store' ! rp_layouts nextProps = store ! rp_layouts nextProps"
        proof -
          have "store' ! rp_layouts nextProps = take (length store) store' ! rp_layouts nextProps"
            using addr by simp
          then show ?thesis unfolding t .
        qed
        have n: "\<forall>layout m entries. OnLayoutsChange layout m entries \<in> set ns \<longrightarrow>
                  m = length store \<and> m \<noteq> rp_layouts nextProps \<and> entries = store' ! m"
          using addr by (simp add: ns store')
        show ?thesis
          by (intro conjI t k n)
      qed
    qed
  qed
  have b: "take (length store) (fst (onLayoutChange nextProps st store layout)) = store"
    "fst (onLayoutChange nextProps st store layout) ! rp_layouts nextProps
           = store ! rp_layouts nextProps"
    "snd (onLayoutChange nextProps st store layout) =
           [OnLayoutsChange layout (length store)
              (obj_set (rs_breakpoint st) layout (store ! rp_layouts nextProps))]"
    using addr by (simp_all add: onLayoutChange_def Let_def nth_append)
  have c: "map_of (obj_set (rs_breakpoint st) layout (store ! rp_layouts nextProps))
           = (map_of (store ! rp_layouts nextProps))(rs_breakpoint st \<mapsto> layout)"
    by (rule map_of_obj_set)
  from a have a': "\<forall>st' store' notes.
            onWidthChange fgen sync thisProps st store nextProps = Inr (st', store', notes) \<longrightarrow>
              take (length store) store' = store
            \<and> store' ! rp_layouts nextProps = store ! rp_layouts nextProps
            \<and> (\<forall>layout m entries. OnLayoutsChange layout m entries \<in> set notes \<longrightarrow>
                  m = length store \<and> m \<noteq> rp_layouts nextProps \<and> entries = store' ! m)"
    by blast
  show ?thesis
    by (intro conjI a' b c)
qed


theorem layouts_prop_never_written_witness:
  "rp_layouts (rprops0 1000) < length store0
   \<and> onWidthChange fgen0 sync0 (rprops0 1300) rstate0 store0 (rprops0 1000) =
       Inr (\<lparr>rs_layout = [item ''a'' 0 0 5 2 False], rs_breakpoint = ''md'', rs_cols = 10\<rparr>,
            [[(''md'', [item ''a'' 0 0 5 2 False])],
             [(''md'', [item ''a'' 0 0 5 2 False]), (''lg'', [item ''a'' 0 0 6 2 False])]],
            [OnBreakpointChange ''md'' 10,
             OnLayoutsChange [item ''a'' 0 0 5 2 False] 1
               [(''md'', [item ''a'' 0 0 5 2 False]), (''lg'', [item ''a'' 0 0 6 2 False])],
             OnWidthChange 1000 (10, 10) 10 None])
   \<and> take (length store0)
        [[(''md'', [item ''a'' 0 0 5 2 False])],
         [(''md'', [item ''a'' 0 0 5 2 False]), (''lg'', [item ''a'' 0 0 6 2 False])]] = store0
   \<and> snd (onLayoutChange (rprops0 1000) rstate0 store0 [item ''a'' 1 0 6 2 False]) =
        [OnLayoutsChange [item ''a'' 1 0 6 2 False] 1
           [(''md'', [item ''a'' 0 0 5 2 False]), (''lg'', [item ''a'' 1 0 6 2 False])]]
   \<and> fst (onLayoutChange (rprops0 1000) rstate0 store0 [item ''a'' 1 0 6 2 False]) ! 0 =
        [(''md'', [item ''a'' 0 0 5 2 False])]"
proof -
  let ?store' = "[[(''md'', [item ''a'' 0 0 5 2 False])],
             [(''md'', [item ''a'' 0 0 5 2 False]), (''lg'', [item ''a'' 0 0 6 2 False])]]"
  have addr: "rp_layouts (rprops0 1000) < length store0"
    by (simp add: rprops0_def store0_def)
  have run: "onWidthChange fgen0 sync0 (rprops0 1300) rstate0 store0 (rprops0 1000) =
       Inr (\<lparr>rs_layout = [item ''a'' 0 0 5 2 False], rs_breakpoint = ''md'', rs_cols = 10\<rparr>,
            ?store',
            [OnBreakpointChange ''md'' 10,
             OnLayoutsChange [item ''a'' 0 0 5 2 False] 1
               [(''md'', [item ''a'' 0 0 5 2 False]), (''lg'', [item ''a'' 0 0 6 2 False])],
             OnWidthChange 1000 (10, 10) 10 None])"
    by code_simp
  have s0: "store0 ! rp_layouts (rprops0 1000) = [(''md'', [item ''a'' 0 0 5 2 False])]"
       "rs_breakpoint rstate0 = ''lg''" "length store0 = 1"
    by (simp_all add: store0_def rprops0_def rstate0_def)
  note frame = layouts_prop_never_written [OF addr, of fgen0 sync0 "rprops0 1300" rstate0
                 "[item ''a'' 1 0 6 2 False]"]
  note widthChange = frame [THEN conjunct1, rule_format, OF run]
  note wrapper = frame [THEN conjunct2]
  have t: "take (length store0) ?store' = store0"
    using widthChange by (rule conjunct1)
  have n: "snd (onLayoutChange (rprops0 1000) rstate0 store0 [item ''a'' 1 0 6 2 False]) =
        [OnLayoutsChange [item ''a'' 1 0 6 2 False] 1
           [(''md'', [item ''a'' 0 0 5 2 False]), (''lg'', [item ''a'' 1 0 6 2 False])]]"
    using wrapper [THEN conjunct2, THEN conjunct2, THEN conjunct1] unfolding s0 by simp
  have k: "fst (onLayoutChange (rprops0 1000) rstate0 store0 [item ''a'' 1 0 6 2 False]) ! 0 =
        [(''md'', [item ''a'' 0 0 5 2 False])]"
    using wrapper [THEN conjunct2, THEN conjunct1] s0(1) by (simp add: rprops0_def)
  show ?thesis
    by (intro conjI addr run t n k)
qed

text \<open>
  C10. On a breakpoint change, when the \<open>layouts\<close> prop has no entry for the outgoing
  breakpoint, a clone of the layout in the state is put under the outgoing breakpoint's
  key in the copied mapping before the new layout is derived: the mapping \<open>M\<close> passed to
  \<open>findOrGenerateResponsiveLayout\<close> and the mapping passed to \<open>onLayoutChange\<close> both hold
  the state's layout under that key.
\<close>

theorem outgoing_breakpoint_preserved:
  assumes bp: "resolveBreakpoint nextProps = Some newBreakpoint"
    and cols: "getColsFromBreakpoint newBreakpoint (snd (rp_cols nextProps)) = Inr newCols"
    and change: "rs_breakpoint st \<noteq> newBreakpoint"
    and absent: "\<not> has_key (rs_breakpoint st) (store ! rp_layouts nextProps)"
    and M: "M = obj_set (rs_breakpoint st) (cloneLayout (rs_layout st)) (store ! rp_layouts nextProps)"
    and layout: "layout = sync (fgen M (snd (rp_breakpoints nextProps)) newBreakpoint
                              (rs_breakpoint st) newCols (rp_compactType nextProps))
                         (rp_children nextProps) newCols (rp_compactType nextProps)"
  shows "\<exists>st' store'.
           onWidthChange fgen sync thisProps st store nextProps =
             Inr (st', store',
                  [OnBreakpointChange newBreakpoint newCols,
                   OnLayoutsChange layout (length store) (obj_set newBreakpoint layout M),
                   OnWidthChange (rp_width nextProps) (rp_margin nextProps) newCols
                     (rp_containerPadding nextProps)])
         \<and> rs_layout st' = layout
         \<and> map_of M (rs_breakpoint st) = Some (rs_layout st)
         \<and> map_of (obj_set newBreakpoint layout M) (rs_breakpoint st) = Some (rs_layout st)"
  using assms
  by (simp add: onWidthChange_def Let_def map_of_obj_set cloneLayout_same)

theorem outgoing_breakpoint_preserved_witness:
  "resolveBreakpoint (rprops0 1000) = Some ''md''
   \<and> getColsFromBreakpoint ''md'' (snd (rp_cols (rprops0 1000))) = Inr 10
   \<and> rs_breakpoint rstate0 \<noteq> ''md''
   \<and> \<not> has_key (rs_breakpoint rstate0) (store0 ! rp_layouts (rprops0 1000))
   \<and> (\<exists>st' store'.
         onWidthChange fgen0 sync0 (rprops0 1300) rstate0 store0 (rprops0 1000) =
           Inr (st', store',
                [OnBreakpointChange ''md'' 10,
                 OnLayoutsChange [item ''a'' 0 0 5 2 False] 1
                   [(''md'', [item ''a'' 0 0 5 2 False]), (''lg'', [item ''a'' 0 0 6 2 False])],
                 OnWidthChange 1000 (10, 10) 10 None]))
   \<and> map_of [(''md'', [item ''a'' 0 0 5 2 False]), (''lg'', [item ''a'' 0 0 6 2 False])] ''lg''
       = Some (rs_layout rstate0)"
proof -
  let ?M = "obj_set (rs_breakpoint rstate0) (cloneLayout (rs_layout rstate0))
              (store0 ! rp_layouts (rprops0 1000))"
  have bp: "resolveBreakpoint (rprops0 1000) = Some ''md''"
    by code_simp
  have cols: "getColsFromBreakpoint ''md'' (snd (rp_cols (rprops0 1000))) = Inr 10"
    by code_simp
  have change: "rs_breakpoint rstate0 \<noteq> ''md''"
    by (simp add: rstate0_def)
  have absent: "\<not> has_key (rs_breakpoint rstate0) (store0 ! rp_layouts (rprops0 1000))"
    by (simp add: has_key_def rstate0_def store0_def rprops0_def)
  have M: "?M = [(''md'', [item ''a'' 0 0 5 2 False]), (''lg'', [item ''a'' 0 0 6 2 False])]"
    by code_simp
  have layout': "sync0 (fgen0 [(''md'', [item ''a'' 0 0 5 2 False]), (''lg'', [item ''a'' 0 0 6 2 False])]
                          (snd (rp_breakpoints (rprops0 1000))) ''md''
                          (rs_breakpoint rstate0) 10 (rp_compactType (rprops0 1000)))
                   (rp_children (rprops0 1000)) 10 (rp_compactType (rprops0 1000))
                 = [item ''a'' 0 0 5 2 False]"
    by code_simp
  have upd: "obj_set ''md'' [item ''a'' 0 0 5 2 False]
               [(''md'', [item ''a'' 0 0 5 2 False]), (''lg'', [item ''a'' 0 0 6 2 False])]
             = [(''md'', [item ''a'' 0 0 5 2 False]), (''lg'', [item ''a'' 0 0 6 2 False])]"
    by simp
  have misc: "rp_width (rprops0 1000) = 1000" "rp_margin (rprops0 1000) = (10, 10)"
    "rp_containerPadding (rprops0 1000) = None" "length store0 = 1"
    by (simp_all add: rprops0_def store0_def)
  have last: "rs_breakpoint rstate0 = ''lg''"
    by (simp add: rstate0_def)
  from outgoing_breakpoint_preserved [where fgen = fgen0 and sync = sync0
         and thisProps = "rprops0 1300", OF bp cols change absent M [symmetric]
         layout' [symmetric]]
  obtain st' store' where
    run: "onWidthChange fgen0 sync0 (rprops0 1300) rstate0 store0 (rprops0 1000) =
            Inr (st', store',
                 [OnBreakpointChange ''md'' 10,
                  OnLayoutsChange [item ''a'' 0 0 5 2 False] (length store0)
                    (obj_set ''md'' [item ''a'' 0 0 5 2 False]
                       [(''md'', [item ''a'' 0 0 5 2 False]), (''lg'', [item ''a'' 0 0 6 2 False])]),
                  OnWidthChange (rp_width (rprops0 1000)) (rp_margin (rprops0 1000)) 10
                    (rp_containerPadding (rprops0 1000))])"
    and kept: "map_of [(''md'', [item ''a'' 0 0 5 2 False]), (''lg'', [item ''a'' 0 0 6 2 False])]
                 (rs_breakpoint rstate0) = Some (rs_layout rstate0)"
    by blast
  have ex: "\<exists>st' store'.
         onWidthChange fgen0 sync0 (rprops0 1300) rstate0 store0 (rprops0 1000) =
           Inr (st', store',
                [OnBreakpointChange ''md'' 10,
                 OnLayoutsChange [item ''a'' 0 0 5 2 False] 1
                   [(''md'', [item ''a'' 0 0 5 2 False]), (''lg'', [item ''a'' 0 0 6 2 False])],
                 OnWidthChange 1000 (10, 10) 10 None])"
    using run unfolding upd misc by (intro exI)
  have mp: "map_of [(''md'', [item ''a'' 0 0 5 2 False]), (''lg'', [item ''a'' 0 0 6 2 False])]
              ''lg'' = Some (rs_layout rstate0)"
    using kept unfolding last .
  show ?thesis
    by (intro conjI bp cols change absent ex mp)
qed

section \<open>Resolving a breakpoint from a width\<close>

lemma sortBreakpoints_desc:
  "sorted_wrt (\<lambda>a b. snd b \<le> snd a) (sortBreakpoints breakpoints)"
proof -
  have "sorted (map snd (sort_key snd breakpoints))" by simp
  then have "sorted_wrt (\<lambda>a b. snd a \<le> snd b) (sort_key snd breakpoints)"
    by (simp add: sorted_map)
  then show ?thesis
    by (simp add: sortBreakpoints_def sorted_wrt_rev)
qed

lemma set_sortBreakpoints: "set (sortBreakpoints breakpoints) = set breakpoints"
  by (simp add: sortBreakpoints_def)

text \<open>
  C8, as the claim states it, fails in its example: for the breakpoints
  \<open>{lg: 1200, md: 996, xs: 480}\<close> and the width 800 the breakpoint is not \<open>md\<close>, whose
  threshold 996 is above 800.
\<close>

theorem getBreakpointFromWidth_scenarioB_counterexample:
  "getBreakpointFromWidth breakpointsB 800 \<noteq> Some ''md''"
  by code_simp

text \<open>
  C8, amended. For a non-empty breakpoint map, \<open>getBreakpointFromWidth\<close> returns the name
  of a breakpoint whose threshold is the largest one \<open>\<le> width\<close>, or the smallest
  threshold of all when the width is below every threshold; and for the breakpoints
  \<open>{lg: 1200, md: 996, xs: 480}\<close> and the width 800 the breakpoint is \<open>xs\<close>.
\<close>

theorem getBreakpointFromWidth_largest_below:
  assumes "breakpoints \<noteq> []"
  shows "(\<exists>name threshold.
           getBreakpointFromWidth breakpoints width = Some name
         \<and> (name, threshold) \<in> set breakpoints
         \<and> (if \<exists>(n, t) \<in> set breakpoints. t \<le> width
             then threshold \<le> width \<and> (\<forall>(n, t) \<in> set breakpoints. t \<le> width \<longrightarrow> t \<le> threshold)
             else (\<forall>(n, t) \<in> set breakpoints. threshold \<le> t)))
       \<and> getBreakpointFromWidth breakpointsB 800 = Some ''xs''"
proof -
  have example: "getBreakpointFromWidth breakpointsB 800 = Some ''xs''"
    by code_simp
  let ?S = "sortBreakpoints breakpoints"
  let ?P = "\<lambda>(name, threshold). threshold \<le> width"
  have desc: "sorted_wrt (\<lambda>a b. snd b \<le> snd a) ?S" by (rule sortBreakpoints_desc)
  have S_set: "set ?S = set breakpoints" by (rule set_sortBreakpoints)
  have S_ne: "?S \<noteq> []" using assms S_set by (metis set_empty)
  then obtain b bs where S: "?S = b # bs" by (cases ?S) auto
  show ?thesis
  proof (cases "find ?P ?S")
    case None
    have all_above: "\<forall>(n, t) \<in> set breakpoints. \<not> t \<le> width"
      using None S_set by (auto simp: find_None_iff)
    have res: "getBreakpointFromWidth breakpoints width = Some (fst (last ?S))"
      using None S by (simp add: getBreakpointFromWidth_def)
    have last_in: "last ?S \<in> set breakpoints" using S_ne S_set last_in_set by blast
    have least: "snd (last ?S) \<le> snd x" if "x \<in> set breakpoints" for x
    proof -
      from that S_set obtain i where i: "i < length ?S" "?S ! i = x"
        by (metis in_set_conv_nth)
      show ?thesis
      proof (cases "i = length ?S - 1")
        case True
        then show ?thesis using i S_ne by (simp add: last_conv_nth)
      next
        case False
        then have "i < length ?S - 1" using i by simp
        moreover have "length ?S - 1 < length ?S" using S_ne by simp
        ultimately have "snd (?S ! (length ?S - 1)) \<le> snd (?S ! i)"
          using desc unfolding sorted_wrt_iff_nth_less by blast
        then show ?thesis using i S_ne by (simp add: last_conv_nth)
      qed
    qed
    have "\<exists>name threshold.
           getBreakpointFromWidth breakpoints width = Some name
         \<and> (name, threshold) \<in> set breakpoints
         \<and> (if \<exists>(n, t) \<in> set breakpoints. t \<le> width
             then threshold \<le> width \<and> (\<forall>(n, t) \<in> set breakpoints. t \<le> width \<longrightarrow> t \<le> threshold)
             else (\<forall>(n, t) \<in> set breakpoints. threshold \<le> t))"
      using res last_in least all_above
      by (intro exI [of _ "fst (last ?S)"] exI [of _ "snd (last ?S)"]) fastforce
    then show ?thesis using example by blast
  next
    case (Some hit)
    obtain name threshold where hit: "hit = (name, threshold)" by (cases hit)
    from Some obtain i where i: "i < length ?S" "?P (?S ! i)" "hit = ?S ! i"
      "\<forall>j<i. \<not> ?P (?S ! j)"
      by (auto simp: find_Some_iff)
    have res: "getBreakpointFromWidth breakpoints width = Some name"
      using Some S hit by (simp add: getBreakpointFromWidth_def)
    have mem: "(name, threshold) \<in> set breakpoints"
      using i hit S_set by (metis nth_mem)
    have below: "threshold \<le> width" using i hit by (metis case_prod_conv)
    have largest: "snd x \<le> threshold" if x: "x \<in> set breakpoints" "snd x \<le> width" for x
    proof -
      from x S_set obtain j where j: "j < length ?S" "?S ! j = x"
        by (metis in_set_conv_nth)
      have "\<not> j < i" using i(4) j x(2) by (auto simp: case_prod_beta)
      then consider "j = i" | "i < j" by linarith
      then show ?thesis
      proof cases
        case 1
        then have "x = (name, threshold)" using j i hit by simp
        then show ?thesis by simp
      next
        case 2
        then have "snd (?S ! j) \<le> snd (?S ! i)"
          using desc j(1) unfolding sorted_wrt_iff_nth_less by blast
        moreover have "?S ! i = (name, threshold)" using i hit by simp
        ultimately show ?thesis using j by simp
      qed
    qed
    have "\<exists>name threshold.
           getBreakpointFromWidth breakpoints width = Some name
         \<and> (name, threshold) \<in> set breakpoints
         \<and> (if \<exists>(n, t) \<in> set breakpoints. t \<le> width
             then threshold \<le> width \<and> (\<forall>(n, t) \<in> set breakpoints. t \<le> width \<longrightarrow> t \<le> threshold)
             else (\<forall>(n, t) \<in> set breakpoints. threshold \<le> t))"
      using res mem below largest
      by (intro exI [of _ name] exI [of _ threshold]) fastforce
    then show ?thesis using example by blast
  qed
qed

theorem getBreakpointFromWidth_largest_below_witness:
  "breakpointsB \<noteq> []
   \<and> (\<exists>threshold. getBreakpointFromWidth breakpointsB 800 = Some ''xs''
         \<and> (''xs'', threshold) \<in> set breakpointsB \<and> threshold \<le> 800 \<and> threshold = 480)"
proof -
  have ne: "breakpointsB \<noteq> []"
    by (simp add: breakpointsB_def)
  have below: "\<exists>(n, t) \<in> set breakpointsB. t \<le> 800"
    by (simp add: breakpointsB_def)
  from getBreakpointFromWidth_largest_below [OF ne, of 800]
  obtain name threshold where
    r: "getBreakpointFromWidth breakpointsB 800 = Some name"
       "(name, threshold) \<in> set breakpointsB" "threshold \<le> 800"
       "getBreakpointFromWidth breakpointsB 800 = Some ''xs''"
    using below by auto
  have "name = ''xs''" using r(1,4) by simp
  then have "(''xs'', threshold) \<in> set breakpointsB \<and> threshold = 480"
    using r(2) by (auto simp: breakpointsB_def)
  then show ?thesis
    using ne r by blast
qed

section \<open>Compacting twice\<close>

subsection \<open>Moving an item along the compaction axis\<close>

lemma axis_pos_set_axis [simp]: "axis_pos ct (set_axis ct v l) = v"
  by (cases ct) (simp_all add: axis_pos_def set_axis_def)

lemma set_axis_same [simp]: "set_axis ct (axis_pos ct l) l = l"
  by (cases ct) (simp_all add: axis_pos_def set_axis_def)

lemma set_axis_twice [simp]: "set_axis ct v (set_axis ct u l) = set_axis ct v l"
  by (cases ct) (simp_all add: set_axis_def)

lemma static_set_axis [simp]: "li_static (set_axis ct v l) = li_static l"
  by (cases ct) (simp_all add: set_axis_def)

lemma collides_sym: "collides a b = collides b a"
  by (auto simp: collides_def max.commute min.commute)

lemma collides_self [simp]: "\<not> collides l l"
  by (simp add: collides_def)

lemma collides_passed:
  assumes "collides ob (set_axis ct u l)" and "\<not> collides ob (set_axis ct p l)" and "u < p"
  shows "axis_pos ct ob + axis_len ct ob \<le> p \<and> axis_pos ct ob < p
         \<and> u < axis_pos ct ob + axis_len ct ob"
  using assms
  by (cases ct) (auto simp: collides_def set_axis_def axis_pos_def axis_len_def)

lemma clear_beyond:
  assumes "axis_pos ct ob + axis_len ct ob \<le> b"
  shows "\<not> collides ob (set_axis ct b l)"
  using assms
  by (cases ct) (auto simp: collides_def set_axis_def axis_pos_def axis_len_def)

lemma is_free_iff: "is_free placed l \<longleftrightarrow> (\<forall>ob \<in> set placed. \<not> collides ob l)"
  by (simp add: is_free_def getAllCollisions_def filter_empty_conv)

subsection \<open>The far edge and the search for the nearest free position\<close>

lemma fold_max_ge:
  fixes b :: int
  shows "b \<le> fold (\<lambda>l b. max b (f l)) xs b \<and> (\<forall>x \<in> set xs. f x \<le> fold (\<lambda>l b. max b (f l)) xs b)"
proof (induction xs arbitrary: b)
  case Nil
  then show ?case by simp
next
  case (Cons x xs)
  have "max b (f x) \<le> fold (\<lambda>l b. max b (f l)) xs (max b (f x))"
    and "\<forall>y \<in> set xs. f y \<le> fold (\<lambda>l b. max b (f l)) xs (max b (f x))"
    using Cons.IH [of "max b (f x)"] by simp_all
  then show ?case by auto
qed

lemma far_edge_nonneg: "0 \<le> far_edge ct placed"
  unfolding far_edge_def using fold_max_ge [of 0 "\<lambda>l. axis_pos ct l + axis_len ct l" placed]
  by simp

lemma far_edge_ge: "ob \<in> set placed \<Longrightarrow> axis_pos ct ob + axis_len ct ob \<le> far_edge ct placed"
  unfolding far_edge_def using fold_max_ge [of 0 "\<lambda>l. axis_pos ct l + axis_len ct l" placed]
  by simp

lemma far_edge_free: "is_free placed (set_axis ct (far_edge ct placed) l)"
  by (simp add: is_free_iff clear_beyond far_edge_ge)

lemma find_upto_Some:
  assumes "find P [0..b] = Some v"
  shows "0 \<le> v \<and> v \<le> b \<and> P v \<and> (\<forall>u. 0 \<le> u \<and> u < v \<longrightarrow> \<not> P u)"
proof -
  from assms obtain i where i: "i < length [0..b]" "P ([0..b] ! i)" "v = [0..b] ! i"
    "\<forall>j<i. \<not> P ([0..b] ! j)"
    by (auto simp: find_Some_iff)
  have ib: "int i \<le> b" using i(1) by simp
  then have v: "v = int i" using i(3) by simp
  have "\<not> P u" if u: "0 \<le> u" "u < v" for u
  proof -
    have "nat u < i" using u v by linarith
    moreover have "[0..b] ! nat u = u" using u v ib by simp
    ultimately show ?thesis using i(4) by metis
  qed
  then show ?thesis using i(2) v ib by simp
qed

lemma nearest_free_props:
  assumes "0 \<le> b" and "free b"
  shows "0 \<le> nearest_free free b \<and> free (nearest_free free b)
         \<and> (\<forall>u. 0 \<le> u \<and> u < nearest_free free b \<longrightarrow> \<not> free u)"
proof (cases "find free [0..b]")
  case None
  then have "\<not> free b" using assms(1) by (auto simp: find_None_iff)
  then show ?thesis using assms(2) by simp
next
  case (Some v)
  then show ?thesis using find_upto_Some [OF Some] by (simp add: nearest_free_def)
qed

lemma nearest_free_eq:
  assumes "0 \<le> p" and "p \<le> b" and "free p" and "\<forall>u. 0 \<le> u \<and> u < p \<longrightarrow> \<not> free u"
  shows "nearest_free free b = p"
proof (cases "find free [0..b]")
  case None
  then have "\<not> free p" using assms(1,2) by (auto simp: find_None_iff)
  then show ?thesis using assms(3) by simp
next
  case (Some v)
  note v = find_upto_Some [OF Some]
  have "\<not> v < p" using v assms(4) by blast
  moreover have "\<not> p < v" using v assms(1,3) by blast
  ultimately have "v = p" by simp
  then show ?thesis using Some by (simp add: nearest_free_def)
qed

subsection \<open>One item\<close>

lemma compactItem_static: "li_static l \<Longrightarrow> compactItem ct placed l = l"
  by (simp add: compactItem_def)

lemma compactItem_keeps_static [simp]: "li_static (compactItem ct placed l) = li_static l"
  by (simp add: compactItem_def)

lemma compactItem_settled:
  assumes "\<not> li_static l"
  shows "settled ct placed (compactItem ct placed l)"
proof -
  let ?free = "\<lambda>v. is_free placed (set_axis ct v l)"
  let ?v = "nearest_free ?free (far_edge ct placed)"
  have l': "compactItem ct placed l = set_axis ct ?v l"
    using assms by (simp add: compactItem_def)
  note nf = nearest_free_props [of "far_edge ct placed" ?free, OF far_edge_nonneg far_edge_free]
  show ?thesis
    unfolding l' settled_def using nf by simp
qed

lemma settled_fixed:
  assumes "settled ct placed l"
  shows "compactItem ct placed l = l"
proof (cases "li_static l")
  case True
  then show ?thesis by (rule compactItem_static)
next
  case False
  let ?p = "axis_pos ct l"
  let ?free = "\<lambda>v. is_free placed (set_axis ct v l)"
  have p0: "0 \<le> ?p" and fp: "?free ?p"
    and below: "\<forall>u. 0 \<le> u \<and> u < ?p \<longrightarrow> \<not> ?free u"
    using assms by (simp_all add: settled_def)
  have pb: "?p \<le> far_edge ct placed"
  proof (cases "?p = 0")
    case True
    then show ?thesis using far_edge_nonneg [of ct placed] by simp
  next
    case False
    then have "\<not> ?free (?p - 1)" using p0 below by simp
    then obtain ob where ob: "ob \<in> set placed" "collides ob (set_axis ct (?p - 1) l)"
      by (auto simp: is_free_iff)
    have "\<not> collides ob (set_axis ct ?p l)" using fp ob(1) by (auto simp: is_free_iff)
    from collides_passed [OF ob(2) this] have "?p \<le> axis_pos ct ob + axis_len ct ob"
      by simp
    then show ?thesis using far_edge_ge [OF ob(1), of ct] by simp
  qed
  have "nearest_free ?free (far_edge ct placed) = ?p"
    using p0 pb fp below by (rule nearest_free_eq)
  then show ?thesis using False by (simp add: compactItem_def)
qed

subsection \<open>One pass\<close>

lemma compactAll_fixed:
  assumes "\<And>pre k l post. xs = pre @ (k, l) # post \<Longrightarrow> \<not> li_static l
             \<Longrightarrow> settled ct (placed @ movable pre) l"
  shows "compactAll ct placed xs = xs"
  using assms
proof (induction xs arbitrary: placed)
  case Nil
  then show ?case by simp
next
  case (Cons x xs)
  obtain k l where x: "x = (k, l)" by (cases x)
  have head: "compactItem ct placed l = l"
  proof (cases "li_static l")
    case True
    then show ?thesis by (rule compactItem_static)
  next
    case False
    have "settled ct (placed @ movable []) l"
      using Cons.prems [of "[]" k l xs] x False by simp
    then show ?thesis by (simp add: movable_def settled_fixed)
  qed
  let ?placed' = "if li_static l then placed else placed @ [l]"
  have rest: "compactAll ct ?placed' xs = xs"
  proof (rule Cons.IH)
    fix pre k' l' post
    assume split: "xs = pre @ (k', l') # post" and movable: "\<not> li_static l'"
    have "settled ct (placed @ movable ((k, l) # pre)) l'"
      using Cons.prems [of "(k, l) # pre" k' l' post] x split movable by simp
    then show "settled ct (?placed' @ movable pre) l'"
      by (cases "li_static l") (simp_all add: movable_def)
  qed
  show ?case
    using head rest by (simp add: x Let_def)
qed

lemma compactAll_fst: "map fst (compactAll ct placed xs) = map fst xs"
  by (induction xs arbitrary: placed) (auto simp: Let_def)

lemma compactAll_static_kept:
  "(k, l) \<in> set xs \<Longrightarrow> li_static l \<Longrightarrow> (k, l) \<in> set (compactAll ct placed xs)"
  by (induction xs arbitrary: placed) (auto simp: Let_def compactItem_static)

lemma compactAll_static_from:
  "(k, l) \<in> set (compactAll ct placed xs) \<Longrightarrow> li_static l \<Longrightarrow> (k, l) \<in> set xs"
proof (induction xs arbitrary: placed)
  case Nil
  then show ?case by simp
next
  case (Cons x xs)
  obtain k0 l0 where x: "x = (k0, l0)" by (cases x)
  from Cons.prems(1) consider "(k, l) = (k0, compactItem ct placed l0)"
    | "(k, l) \<in> set (compactAll ct (if li_static l0 then placed else placed @ [compactItem ct placed l0]) xs)"
    by (auto simp: x Let_def)
  then show ?case
  proof cases
    case 1
    then have "li_static l0" using Cons.prems(2) by simp
    then show ?thesis using 1 x by (simp add: compactItem_static)
  next
    case 2
    then show ?thesis using Cons.IH Cons.prems(2) by auto
  qed
qed

text \<open>What one pass establishes for every movable item of its result.\<close>

lemma compactAll_placed:
  assumes "(k, l) \<in> set (compactAll ct placed xs)" and "\<not> li_static l"
  shows "0 \<le> axis_pos ct l
       \<and> (\<forall>ob \<in> set placed. \<not> collides ob l)
       \<and> (\<forall>ob \<in> set (movable (compactAll ct placed xs)). \<not> collides ob l)
       \<and> (\<forall>u. 0 \<le> u \<and> u < axis_pos ct l \<longrightarrow>
             (\<exists>t \<in> set placed \<union> set (movable (compactAll ct placed xs)).
                 collides t (set_axis ct u l)))"
  using assms
proof (induction xs arbitrary: placed k l)
  case Nil
  then show ?case by simp
next
  case (Cons x xs)
  obtain k0 l0 where x: "x = (k0, l0)" by (cases x)
  let ?l0' = "compactItem ct placed l0"
  let ?placed' = "if li_static l0 then placed else placed @ [?l0']"
  let ?R = "compactAll ct ?placed' xs"
  have res: "compactAll ct placed (x # xs) = (k0, ?l0') # ?R"
    by (simp add: x Let_def)
  have mov: "set (movable ((k0, ?l0') # ?R)) =
               (if li_static l0 then {} else {?l0'}) \<union> set (movable ?R)"
    by (auto simp: movable_def)
  have placed': "set ?placed' = set placed \<union> (if li_static l0 then {} else {?l0'})"
    by auto
  from Cons.prems(1) consider (head) "l = ?l0'" | (tail) "(k, l) \<in> set ?R"
    by (auto simp: res)
  then show ?case
  proof cases
    case head
    then have ns: "\<not> li_static l0" using Cons.prems(2) by simp
    have st: "settled ct placed l" unfolding head using ns by (rule compactItem_settled)
    have later: "\<not> collides ob l" if "ob \<in> set (movable ?R)" for ob
    proof -
      from that obtain kb where kb: "(kb, ob) \<in> set ?R" "\<not> li_static ob"
        by (auto simp: movable_def)
      have "\<forall>p \<in> set ?placed'. \<not> collides p ob"
        using Cons.IH [OF kb] by blast
      then have "\<not> collides l ob" using ns head by simp
      then show ?thesis by (simp add: collides_sym)
    qed
    have below: "\<exists>t \<in> set placed \<union> set (movable ((k0, ?l0') # ?R)). collides t (set_axis ct u l)"
      if "0 \<le> u \<and> u < axis_pos ct l" for u
    proof -
      have "\<not> is_free placed (set_axis ct u l)" using st that by (simp add: settled_def)
      then show ?thesis by (auto simp: is_free_iff)
    qed
    show ?thesis
      unfolding res mov using st later below head ns
      by (auto simp: settled_def is_free_iff)
  next
    case tail
    note ih = Cons.IH [OF tail Cons.prems(2)]
    have c1: "0 \<le> axis_pos ct l" using ih by blast
    have c2: "\<forall>ob \<in> set placed. \<not> collides ob l" using ih placed' by blast
    have c3: "\<forall>ob \<in> set (movable ((k0, ?l0') # ?R)). \<not> collides ob l"
      unfolding mov using ih placed' by (cases "li_static l0") auto
    have c4: "\<exists>t \<in> set placed \<union> set (movable ((k0, ?l0') # ?R)). collides t (set_axis ct u l)"
      if u: "0 \<le> u \<and> u < axis_pos ct l" for u
    proof -
      from ih u obtain t where t: "t \<in> set ?placed' \<union> set (movable ?R)"
        "collides t (set_axis ct u l)" by blast
      have "t \<in> set placed \<union> set (movable ((k0, ?l0') # ?R))"
        using t(1) unfolding mov placed' by (cases "li_static l0") auto
      then show ?thesis using t(2) by blast
    qed
    show ?thesis
      unfolding res using c1 c2 c3 c4 by blast
  qed
qed

subsection \<open>The whole axis compaction\<close>

lemma set_indexed: "snd ` set (zip [0..<length layout] layout) = set layout"
proof -
  have "snd ` set (zip [0..<length layout] layout) = set (map snd (zip [0..<length layout] layout))"
    by (simp only: set_map)
  also have "map snd (zip [0..<length layout] layout) = layout"
    by (rule map_snd_zip) simp
  finally show ?thesis .
qed

lemma set_indexes: "fst ` set (zip [0..<length layout] layout) = set [0..<length layout]"
proof -
  have "fst ` set (zip [0..<length layout] layout) = set (map fst (zip [0..<length layout] layout))"
    by (simp only: set_map)
  also have "map fst (zip [0..<length layout] layout) = [0..<length layout]"
    by (rule map_fst_zip) simp
  finally show ?thesis .
qed

lemma indexed_member:
  "ob \<in> set layout \<Longrightarrow> \<exists>kb. (kb, ob) \<in> set (zip [0..<length layout] layout)"
proof -
  assume "ob \<in> set layout"
  then have "ob \<in> snd ` set (zip [0..<length layout] layout)" by (simp only: set_indexed)
  then obtain z where "z \<in> set (zip [0..<length layout] layout)" "ob = snd z" by blast
  then have "(fst z, ob) \<in> set (zip [0..<length layout] layout)" by simp
  then show ?thesis ..
qed

lemma member_indexed:
  "(kb, ob) \<in> set (zip [0..<length layout] layout) \<Longrightarrow> ob \<in> set layout"
  by (rule set_zip_rightD)

lemma set_sortLayoutItems [simp]: "set (sortLayoutItems ct xs) = set xs"
  by (simp add: sortLayoutItems_def)

lemma set_compactAxis:
  "set (compactAxis ct layout) =
     snd ` set (compactAll ct (filter li_static layout)
                  (sortLayoutItems ct (zip [0..<length layout] layout)))"
  by (simp add: compactAxis_def)

lemma compactAxis_stable: "stable_layout ct (compactAxis ct layout)"
  unfolding stable_layout_def
proof (intro ballI impI)
  let ?P = "filter li_static layout"
  let ?S = "sortLayoutItems ct (zip [0..<length layout] layout)"
  let ?R = "compactAll ct ?P ?S"
  fix l assume l: "l \<in> set (compactAxis ct layout)" and ns: "\<not> li_static l"
  from l obtain k where k: "(k, l) \<in> set ?R" by (auto simp: set_compactAxis)
  note pl = compactAll_placed [OF k ns]
  have in_S: "ob \<in> set layout \<Longrightarrow> \<exists>kb. (kb, ob) \<in> set ?S" for ob
    using indexed_member [of ob layout] by simp
  have from_S: "(kb, ob) \<in> set ?S \<Longrightarrow> ob \<in> set layout" for kb ob
    using member_indexed [of kb ob layout] by simp
  have free: "\<not> collides ob l" if ob: "ob \<in> set (compactAxis ct layout)" for ob
  proof -
    from ob obtain kb where kb: "(kb, ob) \<in> set ?R" by (auto simp: set_compactAxis)
    show ?thesis
    proof (cases "li_static ob")
      case True
      then have "(kb, ob) \<in> set ?S" using kb by (rule compactAll_static_from [rotated])
      then have "ob \<in> set ?P" using from_S True by simp
      then show ?thesis using pl by blast
    next
      case False
      then have "ob \<in> set (movable ?R)" using kb by (force simp: movable_def)
      then show ?thesis using pl by blast
    qed
  qed
  have below: "\<exists>t \<in> set (compactAxis ct layout). collides t (set_axis ct u l)"
    if u: "0 \<le> u \<and> u < axis_pos ct l" for u
  proof -
    from pl u obtain t where t: "t \<in> set ?P \<union> set (movable ?R)" "collides t (set_axis ct u l)"
      by blast
    have "t \<in> set (compactAxis ct layout)"
    proof (cases "t \<in> set ?P")
      case True
      then obtain kt where "(kt, t) \<in> set ?S" using in_S by auto
      then have "(kt, t) \<in> set ?R" using True by (simp add: compactAll_static_kept)
      then show ?thesis by (force simp: set_compactAxis)
    next
      case False
      then have "t \<in> set (movable ?R)" using t(1) by blast
      then show ?thesis by (auto simp: set_compactAxis movable_def)
    qed
    then show ?thesis using t(2) by blast
  qed
  show "0 \<le> axis_pos ct l \<and> (\<forall>ob \<in> set (compactAxis ct layout). \<not> collides ob l)
        \<and> (\<forall>u. 0 \<le> u \<and> u < axis_pos ct l \<longrightarrow>
              (\<exists>t \<in> set (compactAxis ct layout). collides t (set_axis ct u l)))"
    using pl free below by blast
qed

lemma sort_index_fst: "sort_index ct a \<le> sort_index ct b \<Longrightarrow> axis_pos ct (snd a) \<le> axis_pos ct (snd b)"
  by (auto simp: sort_index_def)

lemma restore_order:
  assumes "set xs = set (zip [0..<length layout] layout)" and "distinct xs"
  shows "map snd (sort_key fst xs) = layout"
proof -
  let ?Z = "sort_key fst xs"
  have inj: "inj_on fst (set (zip [0..<length layout] layout))"
    by (auto simp: inj_on_def in_set_zip)
  have "distinct (map fst ?Z)"
    using assms inj by (simp add: distinct_map)
  moreover have "sorted (map fst ?Z)" by simp
  moreover have "set (map fst ?Z) = set [0..<length layout]"
  proof -
    have "set (map fst ?Z) = fst ` set (zip [0..<length layout] layout)"
      using assms(1) by simp
    also have "\<dots> = set [0..<length layout]" by (rule set_indexes)
    finally show ?thesis .
  qed
  ultimately have keys: "map fst ?Z = [0..<length layout]"
    by (intro sorted_distinct_set_unique) simp_all
  have "snd z = layout ! fst z" if "z \<in> set ?Z" for z
  proof -
    from that assms(1) have "z \<in> set (zip [0..<length layout] layout)" by simp
    then show ?thesis by (auto simp: in_set_zip)
  qed
  then have "map snd ?Z = map (\<lambda>z. layout ! fst z) ?Z" by simp
  also have "\<dots> = map ((!) layout) (map fst ?Z)" by simp
  also have "\<dots> = layout" unfolding keys by (rule map_nth)
  finally show ?thesis .
qed

lemma stable_fixed:
  assumes "stable_layout ct layout"
  shows "compactAxis ct layout = layout"
proof -
  let ?P = "filter li_static layout"
  let ?Z = "zip [0..<length layout] layout"
  let ?S = "sortLayoutItems ct ?Z"
  have sorted: "sorted (map (sort_index ct) ?S)"
    by (simp add: sortLayoutItems_def)
  have member: "l \<in> set layout" if "(k, l) \<in> set ?S" for k l
    using that member_indexed [of k l layout] by simp
  have fixed: "compactAll ct ?P ?S = ?S"
  proof (rule compactAll_fixed)
    fix pre k l post
    assume split: "?S = pre @ (k, l) # post" and ns: "\<not> li_static l"
    have l: "l \<in> set layout" using member [of k l] split by simp
    have pre_in: "ob \<in> set layout" if "ob \<in> set (movable pre)" for ob
    proof -
      from that obtain kb where "(kb, ob) \<in> set pre" by (auto simp: movable_def)
      then have "(kb, ob) \<in> set ?S" unfolding split by simp
      then show ?thesis by (rule member)
    qed
    from assms l ns have p0: "0 \<le> axis_pos ct l"
      and free: "\<forall>ob \<in> set layout. \<not> collides ob l"
      and below: "\<forall>u. 0 \<le> u \<and> u < axis_pos ct l \<longrightarrow>
                    (\<exists>t \<in> set layout. collides t (set_axis ct u l))"
      unfolding stable_layout_def by blast+
    have blocked: "\<not> is_free (?P @ movable pre) (set_axis ct u l)"
      if u: "0 \<le> u \<and> u < axis_pos ct l" for u
    proof -
      from below u obtain t where t: "t \<in> set layout" "collides t (set_axis ct u l)" by blast
      have "t \<in> set (?P @ movable pre)"
      proof (cases "li_static t")
        case True
        then show ?thesis using t(1) by simp
      next
        case False
        have "\<not> collides t (set_axis ct (axis_pos ct l) l)" using free t(1) by simp
        from collides_passed [OF t(2) this] u have before: "axis_pos ct t < axis_pos ct l"
          by simp
        from t(1) obtain kt where kt: "(kt, t) \<in> set ?S"
          using indexed_member [of t layout] by auto
        have "(kt, t) \<notin> set post"
        proof
          assume "(kt, t) \<in> set post"
          then have "sort_index ct (k, l) \<le> sort_index ct (kt, t)"
            using sorted unfolding split by (auto simp: sorted_append)
          then have "axis_pos ct l \<le> axis_pos ct t" using sort_index_fst by fastforce
          then show False using before by simp
        qed
        moreover have "(kt, t) \<noteq> (k, l)" using before by auto
        ultimately have "(kt, t) \<in> set pre" using kt unfolding split by auto
        then have "t \<in> set (movable pre)" using False by (force simp: movable_def)
        then show ?thesis by simp
      qed
      then show ?thesis using t(2) by (auto simp: is_free_iff)
    qed
    have "is_free (?P @ movable pre) l"
      using free pre_in by (auto simp: is_free_iff)
    then show "settled ct (?P @ movable pre) l"
      using p0 blocked by (simp add: settled_def)
  qed
  have "distinct ?Z" by (simp add: distinct_zipI1)
  then have "distinct ?S" by (simp add: sortLayoutItems_def)
  moreover have "set ?S = set ?Z" by simp
  ultimately have "map snd (sort_key fst ?S) = layout" by (rule restore_order [rotated])
  then show ?thesis by (simp add: compactAxis_def fixed)
qed

lemma compactAxis_idempotent: "compactAxis ct (compactAxis ct layout) = compactAxis ct layout"
  by (rule stable_fixed) (rule compactAxis_stable)

text \<open>
  C3, as the claim states it, fails. Horizontal compaction of three items in three
  columns: \<open>a\<close> and \<open>b\<close> on the same cell, \<open>c\<close> two wide and overlapping their row. The
  first pass pushes \<open>c\<close> past the right edge and the bound correction pulls it back onto
  \<open>b\<close>; in the second pass \<open>c\<close> is visited before \<open>b\<close>, and \<open>b\<close> ends at \<open>x = 2\<close>
  instead of \<open>x = 1\<close>.
\<close>

theorem compact_idempotent_counterexample:
  "compact overlapped (Some Horizontal) 3 =
     [item ''a'' 0 1 1 1 False, item ''b'' 1 1 1 1 False, item ''c'' 1 0 2 2 False]
   \<and> compact (compact overlapped (Some Horizontal) 3) (Some Horizontal) 3 =
     [item ''a'' 0 1 1 1 False, item ''b'' 2 1 1 1 False, item ''c'' 1 0 2 2 False]
   \<and> compact (compact overlapped (Some Horizontal) 3) (Some Horizontal) 3
       \<noteq> compact overlapped (Some Horizontal) 3"
  by code_simp

text \<open>
  C3, amended. For every layout, every compaction type \<open>t\<close> of vertical and horizontal and
  every column count such that each item, once compacted along the axis, lies within the
  columns (\<open>x + w \<le> cols\<close>, so that the bound correction moves nothing), compacting the
  compacted layout again gives the compacted layout. Under vertical compaction, which
  keeps \<open>x\<close> and \<open>w\<close>, the condition says that every item of the layout has
  \<open>x + w \<le> cols\<close>.
\<close>

theorem compact_idempotent_within_bounds:
  assumes "\<forall>l \<in> set (compactAxis ct layout). li_x l + li_w l \<le> cols"
  shows "compact (compact layout (Some ct) cols) (Some ct) cols = compact layout (Some ct) cols"
proof -
  have same: "map (correctBound cols) (compactAxis ct layout) = compactAxis ct layout"
    using assms by (intro map_idI) (auto simp: correctBound_def)
  have "compact layout (Some ct) cols = compactAxis ct layout"
    by (simp add: compact_def same)
  then show ?thesis
    by (simp add: compact_def compactAxis_idempotent same)
qed

theorem compact_idempotent_within_bounds_witness:
  "compactAxis Vertical scenarioA = [item ''a'' 0 0 6 2 False, item ''b'' 0 2 6 2 False]
   \<and> list_all (\<lambda>l. li_x l + li_w l \<le> 12) (compactAxis Vertical scenarioA)
   \<and> compact scenarioA (Some Vertical) 12 = [item ''a'' 0 0 6 2 False, item ''b'' 0 2 6 2 False]
   \<and> compact (compact scenarioA (Some Vertical) 12) (Some Vertical) 12 =
       [item ''a'' 0 0 6 2 False, item ''b'' 0 2 6 2 False]"
proof -
  have ax: "compactAxis Vertical scenarioA = [item ''a'' 0 0 6 2 False, item ''b'' 0 2 6 2 False]"
    by code_simp
  have inb: "\<forall>l \<in> set (compactAxis Vertical scenarioA). li_x l + li_w l \<le> 12"
    unfolding ax by (simp add: item_def)
  have once: "compact scenarioA (Some Vertical) 12 =
                [item ''a'' 0 0 6 2 False, item ''b'' 0 2 6 2 False]"
    by code_simp
  have twice: "compact (compact scenarioA (Some Vertical) 12) (Some Vertical) 12 =
                 [item ''a'' 0 0 6 2 False, item ''b'' 0 2 6 2 False]"
    using compact_idempotent_within_bounds [OF inb] once by simp
  have all: "list_all (\<lambda>l. li_x l + li_w l \<le> 12) (compactAxis Vertical scenarioA)"
    using inb by (simp add: list_all_iff)
  show ?thesis
    by (intro conjI ax all once twice)
qed

end
